theory Spec2Isabelle
  imports Complex_Main "HOL-Library.Log_Nat" "HOL-Library.Sublist" "HOL-Library.AList"
begin

section \<open>Python numbers used by \<open>calculate_coverage.py\<close>\<close>

text \<open>
  The script computes with Python \<open>int\<close> (unbounded, modelled by \<^typ>\<open>int\<close>) and Python
  \<open>float\<close> (IEEE 754 binary64). A float is modelled by its sign bit and the exact rational
  magnitude it denotes, or one of the special values. Every float operation of the script is
  the exact operation followed by rounding to the nearest binary64 value, ties to even.
\<close>

datatype py_exception =
    OverflowError
  | ValueError
  | ZeroDivisionError
  | TypeError
  | NotADirectoryError
  | UnicodeDecodeError
  | OtherException

datatype pyfloat =
    Finite bool rat      \<comment> \<open>sign bit (True: negative) and magnitude, the magnitude is \<open>\<ge> 0\<close>\<close>
  | Infinite bool        \<comment> \<open>\<open>inf\<close> and \<open>-inf\<close>\<close>
  | NaN

definition ilog2 :: "rat \<Rightarrow> int" where
  \<comment> \<open>for \<open>x > 0\<close>: the exponent \<open>e\<close> with \<open>2^e \<le> x < 2^(e+1)\<close>\<close>
  "ilog2 x =
     (let (n, d) = quotient_of x;
          e = bitlen n - bitlen d
      in if 2 powi e \<le> x then e else e - 1)"

definition round_half_even :: "rat \<Rightarrow> int" where
  "round_half_even x =
     (let f = \<lfloor>x\<rfloor>; r = x - of_int f
      in if r < 1 / 2 then f
         else if 1 / 2 < r then f + 1
         else if even f then f else f + 1)"

definition quantum :: "rat \<Rightarrow> rat" where
  \<comment> \<open>spacing of the binary64 values around \<open>x > 0\<close>: 53 significant bits, and the
      subnormal spacing \<open>2^-1074\<close> below \<open>2^-1022\<close>\<close>
  "quantum x = 2 powi (max (ilog2 x) (- 1022) - 52)"

definition round_nearest :: "rat \<Rightarrow> rat" where
  \<comment> \<open>nearest binary64 magnitude of \<open>x \<ge> 0\<close>, before the overflow check\<close>
  "round_nearest x =
     (if x = 0 then 0 else of_int (round_half_even (x / quantum x)) * quantum x)"

definition round_magnitude :: "rat \<Rightarrow> rat option" where
  \<comment> \<open>\<open>None\<close>: the rounded magnitude is beyond the largest finite binary64 value\<close>
  "round_magnitude x =
     (let r = round_nearest x in if 2 powi 1024 \<le> r then None else Some r)"

definition float_of_int :: "int \<Rightarrow> py_exception + pyfloat" where
  \<comment> \<open>conversion of an \<open>int\<close> operand in mixed arithmetic; too large an \<open>int\<close> raises\<close>
  "float_of_int n =
     (case round_magnitude \<bar>of_int n\<bar> of
        None \<Rightarrow> Inl OverflowError
      | Some r \<Rightarrow> Inr (Finite (n < 0) r))"

definition int_truediv :: "int \<Rightarrow> int \<Rightarrow> py_exception + pyfloat" where
  \<comment> \<open>\<open>a / b\<close> on two \<open>int\<close>s: the correctly rounded quotient\<close>
  "int_truediv a b =
     (if b = 0 then Inl ZeroDivisionError
      else case round_magnitude (\<bar>of_int a\<bar> / \<bar>of_int b\<bar>) of
             None \<Rightarrow> Inl OverflowError
           | Some r \<Rightarrow> Inr (Finite ((a < 0) \<noteq> (b < 0)) r))"

fun float_mul :: "pyfloat \<Rightarrow> pyfloat \<Rightarrow> pyfloat" where
  "float_mul NaN _ = NaN"
| "float_mul _ NaN = NaN"
| "float_mul (Finite s a) (Finite t b) =
     (case round_magnitude (a * b) of
        None \<Rightarrow> Infinite (s \<noteq> t)
      | Some r \<Rightarrow> Finite (s \<noteq> t) r)"
| "float_mul (Finite s a) (Infinite t) = (if a = 0 then NaN else Infinite (s \<noteq> t))"
| "float_mul (Infinite s) (Finite t b) = (if b = 0 then NaN else Infinite (s \<noteq> t))"
| "float_mul (Infinite s) (Infinite t) = Infinite (s \<noteq> t)"

fun float_truediv :: "pyfloat \<Rightarrow> pyfloat \<Rightarrow> py_exception + pyfloat" where
  "float_truediv NaN (Finite t b) = (if b = 0 then Inl ZeroDivisionError else Inr NaN)"
| "float_truediv NaN _ = Inr NaN"
| "float_truediv (Finite s a) NaN = Inr NaN"
| "float_truediv (Infinite s) NaN = Inr NaN"
| "float_truediv (Finite s a) (Finite t b) =
     (if b = 0 then Inl ZeroDivisionError
      else case round_magnitude (a / b) of
             None \<Rightarrow> Inr (Infinite (s \<noteq> t))
           | Some r \<Rightarrow> Inr (Finite (s \<noteq> t) r))"
| "float_truediv (Finite s a) (Infinite t) = Inr (Finite (s \<noteq> t) 0)"
| "float_truediv (Infinite s) (Finite t b) =
     (if b = 0 then Inl ZeroDivisionError else Inr (Infinite (s \<noteq> t)))"
| "float_truediv (Infinite s) (Infinite t) = Inr NaN"

fun int_of_float :: "pyfloat \<Rightarrow> py_exception + int" where
  \<comment> \<open>\<open>int(x)\<close>: truncation towards zero\<close>
  "int_of_float (Finite s a) = Inr (if s then - \<lfloor>a\<rfloor> else \<lfloor>a\<rfloor>)"
| "int_of_float (Infinite s) = Inl OverflowError"
| "int_of_float NaN = Inl ValueError"

definition float_mul_int :: "pyfloat \<Rightarrow> int \<Rightarrow> py_exception + pyfloat" where
  \<comment> \<open>\<open>x * n\<close> with a float \<open>x\<close> and an \<open>int\<close> \<open>n\<close>: \<open>n\<close> is converted first\<close>
  "float_mul_int x n =
     (case float_of_int n of Inl e \<Rightarrow> Inl e | Inr y \<Rightarrow> Inr (float_mul x y))"

definition int_mul_float :: "int \<Rightarrow> pyfloat \<Rightarrow> py_exception + pyfloat" where
  "int_mul_float n x =
     (case float_of_int n of Inl e \<Rightarrow> Inl e | Inr y \<Rightarrow> Inr (float_mul y x))"

definition float_truediv_int :: "pyfloat \<Rightarrow> int \<Rightarrow> py_exception + pyfloat" where
  "float_truediv_int x n =
     (case float_of_int n of Inl e \<Rightarrow> Inl e | Inr y \<Rightarrow> float_truediv x y)"

subsection \<open>Decimal text\<close>

text \<open>
  Text is modelled by \<^typ>\<open>string\<close>; the digits \<open>\d\<close> matches are the ASCII digits.
\<close>

definition is_digit :: "char \<Rightarrow> bool" where
  "is_digit c = (c \<in> set ''0123456789'')"

definition digit_value :: "char \<Rightarrow> nat" where
  "digit_value c = of_char c - 48"

definition nat_of_digits :: "string \<Rightarrow> nat" where
  "nat_of_digits ds = foldl (\<lambda>acc c. 10 * acc + digit_value c) 0 ds"

definition py_int :: "nat \<Rightarrow> string \<Rightarrow> py_exception + int" where
  \<comment> \<open>\<open>int(s)\<close> on a string of digits. \<open>max_str_digits\<close> is the interpreter's
      \<open>sys.get_int_max_str_digits()\<close>: 0 is no limit, otherwise longer digit strings raise\<close>
  "py_int max_str_digits ds =
     (if 0 < max_str_digits \<and> max_str_digits < length ds then Inl ValueError
      else Inr (int (nat_of_digits ds)))"

definition decimal_value :: "string \<Rightarrow> string \<Rightarrow> rat" where
  \<comment> \<open>the number the text \<open>ip.fp\<close> of two digit strings denotes\<close>
  "decimal_value ip fp = of_nat (nat_of_digits (ip @ fp)) / 10 ^ length fp"

definition py_float :: "string \<Rightarrow> string \<Rightarrow> pyfloat" where
  \<comment> \<open>\<open>float(s)\<close> on the text \<open>ip.fp\<close> of two digit strings: the nearest float,
      \<open>inf\<close> beyond the finite range\<close>
  "py_float ip fp =
     (case round_magnitude (decimal_value ip fp) of
        None \<Rightarrow> Infinite False
      | Some r \<Rightarrow> Finite False r)"

fun decimal :: "nat \<Rightarrow> string" where
  "decimal n =
     (if n < 10 then [char_of (48 + n)] else decimal (n div 10) @ [char_of (48 + n mod 10)])"

declare decimal.simps [simp del]

definition format_1f :: "pyfloat \<Rightarrow> string" where
  \<comment> \<open>the format specification \<open>.1f\<close>: one decimal, the exact value rounded half to even\<close>
  "format_1f x =
     (case x of
        Finite s a \<Rightarrow>
          (let n = nat (round_half_even (a * 10))
           in (if s then ''-'' else []) @ decimal (n div 10) @ ''.'' @ decimal (n mod 10))
      | Infinite s \<Rightarrow> (if s then ''-inf'' else ''inf'')
      | NaN \<Rightarrow> ''nan'')"

section \<open>Filtering\<close>

fun str_contains :: "string \<Rightarrow> string \<Rightarrow> bool" where
  \<comment> \<open>\<open>pattern in filename\<close>\<close>
  "str_contains p [] = (p = [])"
| "str_contains p (c # cs) = (prefix p (c # cs) \<or> str_contains p cs)"

definition matches_filters :: "string list \<Rightarrow> string \<Rightarrow> bool" where
  \<comment> \<open>\<open>any(pattern in filename for pattern in filters)\<close>\<close>
  "matches_filters filters name = list_ex (\<lambda>pattern. str_contains pattern name) filters"

section \<open>Diagnostics and results\<close>

text \<open>
  What the script prints on standard error is kept as structured records; the wording of
  these lines is not modelled. An extractor returns the lines it printed on standard error
  and either the exception that left it or its return value.
\<close>

datatype diagnostic =
    ErrorReadingCoverageFile string
  | NoMatchingFiles "string list"
  | MatchedSummary nat int int
  | MatchedFile string int int
  | NoGcdaFiles string
  | FailedToRunGcov string
  | Traceback py_exception
  | ArgparseMessage string

type_synonym 'a outcome = "diagnostic list \<times> (py_exception + 'a)"

definition percentage :: "int \<Rightarrow> int \<Rightarrow> py_exception + pyfloat" where
  \<comment> \<open>\<open>(covered_lines / total_lines) * 100\<close>\<close>
  "percentage covered_lines total_lines =
     (case int_truediv covered_lines total_lines of
        Inl e \<Rightarrow> Inl e
      | Inr q \<Rightarrow> float_mul_int q 100)"

definition finish :: "diagnostic list \<Rightarrow> string list \<Rightarrow> int \<Rightarrow> int \<Rightarrow> diagnostic list
    \<Rightarrow> pyfloat option outcome" where
  \<comment> \<open>the common tail of both extractors, from \<open>if total_lines == 0\<close> on;
      \<open>report\<close> is what is printed once the percentage has been computed\<close>
  "finish printed filters total_lines covered_lines report =
     (if total_lines = 0 then (printed @ [NoMatchingFiles filters], Inr None)
      else case percentage covered_lines total_lines of
             Inl e \<Rightarrow> (printed, Inl e)
           | Inr coverage_pct \<Rightarrow> (printed @ report, Inr (Some coverage_pct)))"

section \<open>The JSON extractor\<close>

text \<open>
  The document \<open>json.load\<close> returns is taken in the shape of the input format: an object
  with an optional key \<open>files\<close> holding a list of objects, each with an optional string
  \<open>filename\<close> and optional integers \<open>line_total\<close> and \<open>line_covered\<close>.
\<close>

record file_entry =
  filename :: "string option"
  line_total :: "int option"
  line_covered :: "int option"

record json_document =
  files :: "file_entry list option"

datatype load_result =
    Loaded json_document
  | FileNotFound string          \<comment> \<open>\<open>open\<close> raised \<open>FileNotFoundError\<close>\<close>
  | JSONDecodeError string       \<comment> \<open>\<open>json.load\<close> raised \<open>json.JSONDecodeError\<close>\<close>
  | LoadRaised py_exception      \<comment> \<open>any other exception: the \<open>except\<close> clause lets it pass\<close>

definition get_default :: "'a option \<Rightarrow> 'a \<Rightarrow> 'a" where
  \<comment> \<open>\<open>d.get(key, default)\<close>\<close>
  "get_default v d = (case v of None \<Rightarrow> d | Some x \<Rightarrow> x)"

definition json_step :: "string list \<Rightarrow> int \<times> int \<times> string list \<Rightarrow> file_entry
    \<Rightarrow> int \<times> int \<times> string list" where
  \<comment> \<open>one iteration of the loop over \<open>data.get('files', [])\<close>; the state is
      \<open>(total_lines, covered_lines, matched_files)\<close>\<close>
  "json_step filters st entry =
     (case st of (total_lines, covered_lines, matched_files) \<Rightarrow>
        let name = get_default (filename entry) [] in
        if matches_filters filters name then
          let lt = get_default (line_total entry) 0;
              lc = get_default (line_covered entry) 0
          in if 0 < lt then (total_lines + lt, covered_lines + lc, matched_files @ [name])
             else st
        else st)"

definition calculate_from_json :: "(string \<Rightarrow> load_result) \<Rightarrow> string \<Rightarrow> string list
    \<Rightarrow> pyfloat option outcome" where
  "calculate_from_json load coverage_file filters =
     (case load coverage_file of
        FileNotFound e \<Rightarrow> ([ErrorReadingCoverageFile e], Inr None)
      | JSONDecodeError e \<Rightarrow> ([ErrorReadingCoverageFile e], Inr None)
      | LoadRaised e \<Rightarrow> ([], Inl e)
      | Loaded data \<Rightarrow>
          (case foldl (json_step filters) (0, 0, []) (get_default (files data) []) of
             (total_lines, covered_lines, matched_files) \<Rightarrow>
               finish [] filters total_lines covered_lines
                 [MatchedSummary (length matched_files) covered_lines total_lines]))"

section \<open>The gcov extractor\<close>

subsection \<open>The two patterns\<close>

definition quote :: char where
  "quote = CHR 0x27"

definition file_pattern_match :: "string \<Rightarrow> string option" where
  \<comment> \<open>\<open>file_pattern.match(line)\<close> for \<open>File '([^']+)'\<close>, anchored at the start of the
      line; the result is \<open>group(1)\<close>\<close>
  "file_pattern_match line =
     (if prefix (''File '' @ [quote]) line then
        let rest = drop 6 line;
            name = takeWhile (\<lambda>c. c \<noteq> quote) rest;
            after = dropWhile (\<lambda>c. c \<noteq> quote) rest
        in if name \<noteq> [] \<and> after \<noteq> [] then Some name else None
      else None)"

definition coverage_pattern_here :: "string \<Rightarrow> (string \<times> string \<times> string) option" where
  \<comment> \<open>a match of \<open>Lines executed:(\d+\.\d+)% of (\d+)\<close> starting at the first character;
      the result is the digits before and after the point of \<open>group(1)\<close>, and \<open>group(2)\<close>\<close>
  "coverage_pattern_here s =
     (if prefix ''Lines executed:'' s then
        let r1 = drop 15 s; ip = takeWhile is_digit r1; r2 = dropWhile is_digit r1 in
        if ip \<noteq> [] \<and> prefix ''.'' r2 then
          let r3 = drop 1 r2; fp = takeWhile is_digit r3; r4 = dropWhile is_digit r3 in
          if fp \<noteq> [] \<and> prefix ''% of '' r4 then
            let td = takeWhile is_digit (drop 5 r4) in
            if td \<noteq> [] then Some (ip, fp, td) else None
          else None
        else None
      else None)"

fun coverage_pattern_search :: "string \<Rightarrow> (string \<times> string \<times> string) option" where
  \<comment> \<open>\<open>coverage_pattern.search(line)\<close>: the leftmost match\<close>
  "coverage_pattern_search [] = None"
| "coverage_pattern_search (c # cs) =
     (case coverage_pattern_here (c # cs) of
        Some g \<Rightarrow> Some g
      | None \<Rightarrow> coverage_pattern_search cs)"

fun split_lines :: "string \<Rightarrow> string list" where
  \<comment> \<open>\<open>output.split('\n')\<close>\<close>
  "split_lines [] = [[]]"
| "split_lines (c # cs) =
     (if c = CHR 0x0A then [] # split_lines cs
      else case split_lines cs of
             [] \<Rightarrow> [[c]]
           | l # ls \<Rightarrow> (c # l) # ls)"

subsection \<open>The table and the line scanner\<close>

type_synonym coverage_table = "(string \<times> (int \<times> int)) list"
  \<comment> \<open>\<open>file_coverage\<close>: filename to \<open>(covered_lines, total_lines)\<close>, in insertion order\<close>

definition covered_count :: "nat \<Rightarrow> string \<Rightarrow> string \<Rightarrow> string
    \<Rightarrow> py_exception + (int \<times> int)" where
  \<comment> \<open>\<open>percent = float(group(1))\<close>, \<open>total = int(group(2))\<close>,
      \<open>covered = int(total * percent / 100)\<close>; the result is \<open>(covered, total)\<close>\<close>
  "covered_count max_str_digits ip fp td =
     (let percent = py_float ip fp in
      case py_int max_str_digits td of
        Inl e \<Rightarrow> Inl e
      | Inr tot \<Rightarrow>
          (case int_mul_float tot percent of
             Inl e \<Rightarrow> Inl e
           | Inr scaled \<Rightarrow>
               (case float_truediv_int scaled 100 of
                  Inl e \<Rightarrow> Inl e
                | Inr ratio \<Rightarrow>
                    (case int_of_float ratio of
                       Inl e \<Rightarrow> Inl e
                     | Inr covered \<Rightarrow> Inr (covered, tot)))))"

definition store_coverage :: "coverage_table \<Rightarrow> string \<Rightarrow> int \<times> int \<Rightarrow> coverage_table" where
  \<comment> \<open>the statement \<open>if current_file in file_coverage: ... else: ...\<close>\<close>
  "store_coverage file_coverage current_file entry =
     (case map_of file_coverage current_file of
        Some (prev_cov, prev_total) \<Rightarrow>
          if prev_total < snd entry then AList.update current_file entry file_coverage
          else file_coverage
      | None \<Rightarrow> AList.update current_file entry file_coverage)"

definition truthy :: "string option \<Rightarrow> bool" where
  \<comment> \<open>the truth value of a variable that is \<open>None\<close> or a string\<close>
  "truthy v = (case v of None \<Rightarrow> False | Some s \<Rightarrow> s \<noteq> [])"

definition scan_line :: "nat \<Rightarrow> coverage_table \<times> string option \<Rightarrow> string
    \<Rightarrow> py_exception + (coverage_table \<times> string option)" where
  \<comment> \<open>the body of \<open>for line in output.split('\n')\<close>; the state is
      \<open>(file_coverage, current_file)\<close>\<close>
  "scan_line max_str_digits st line =
     (case st of (file_coverage, current_file) \<Rightarrow>
        case file_pattern_match line of
          Some name \<Rightarrow> Inr (file_coverage, Some name)
        | None \<Rightarrow>
            (case coverage_pattern_search line of
               Some (ip, fp, td) \<Rightarrow>
                 if truthy current_file then
                   (case covered_count max_str_digits ip fp td of
                      Inl e \<Rightarrow> Inl e
                    | Inr entry \<Rightarrow>
                        Inr (store_coverage file_coverage (the current_file) entry, None))
                 else Inr st
             | None \<Rightarrow> Inr st))"

fun scan_lines :: "nat \<Rightarrow> coverage_table \<times> string option \<Rightarrow> string list
    \<Rightarrow> py_exception + (coverage_table \<times> string option)" where
  "scan_lines max_str_digits st [] = Inr st"
| "scan_lines max_str_digits st (line # rest) =
     (case scan_line max_str_digits st line of
        Inl e \<Rightarrow> Inl e
      | Inr st' \<Rightarrow> scan_lines max_str_digits st' rest)"

definition parse_output :: "nat \<Rightarrow> coverage_table \<Rightarrow> string \<Rightarrow> py_exception + coverage_table" where
  \<comment> \<open>\<open>current_file = None\<close> and the loop over the lines of one annotator output\<close>
  "parse_output max_str_digits file_coverage output =
     (case scan_lines max_str_digits (file_coverage, None) (split_lines output) of
        Inl e \<Rightarrow> Inl e
      | Inr (file_coverage', current_file) \<Rightarrow> Inr file_coverage')"

subsection \<open>Running the annotator\<close>

datatype run_result =
    Completed string string      \<comment> \<open>\<open>result.stdout\<close> and \<open>result.stderr\<close>\<close>
  | TimeoutExpired
  | FileNotFoundError
  | RunRaised py_exception       \<comment> \<open>any other exception: the \<open>except\<close> clause lets it pass\<close>

record world =
  load_json :: "string \<Rightarrow> load_result"           \<comment> \<open>\<open>open\<close> and \<open>json.load\<close> on a path\<close>
  rglob_gcda :: "string \<Rightarrow> string list"          \<comment> \<open>\<open>Path(build_dir).rglob("*.gcda")\<close>\<close>
  run_gcov :: "string \<Rightarrow> run_result"             \<comment> \<open>\<open>subprocess.run\<close> for one data file\<close>
  int_max_str_digits :: nat

fun run_all :: "world \<Rightarrow> string list \<Rightarrow> coverage_table \<Rightarrow> diagnostic list
    \<Rightarrow> coverage_table outcome" where
  \<comment> \<open>\<open>for gcda_file in gcda_files\<close>, from the table and the lines printed so far\<close>
  "run_all w [] file_coverage printed = (printed, Inr file_coverage)"
| "run_all w (gcda_file # rest) file_coverage printed =
     (case run_gcov w gcda_file of
        TimeoutExpired \<Rightarrow> run_all w rest file_coverage (printed @ [FailedToRunGcov gcda_file])
      | FileNotFoundError \<Rightarrow> run_all w rest file_coverage (printed @ [FailedToRunGcov gcda_file])
      | RunRaised e \<Rightarrow> (printed, Inl e)
      | Completed out err \<Rightarrow>
          (case parse_output (int_max_str_digits w) file_coverage (out @ err) of
             Inl e \<Rightarrow> (printed, Inl e)
           | Inr file_coverage' \<Rightarrow> run_all w rest file_coverage' printed))"

definition gcov_step :: "string list \<Rightarrow> int \<times> int \<times> diagnostic list
    \<Rightarrow> string \<times> (int \<times> int) \<Rightarrow> int \<times> int \<times> diagnostic list" where
  \<comment> \<open>one iteration of the loop over \<open>file_coverage.items()\<close>; the state is
      \<open>(total_lines, covered_lines, matched_files)\<close>\<close>
  "gcov_step filters st item =
     (case st of (total_lines, covered_lines, matched_files) \<Rightarrow>
        case item of (name, (cov, tot)) \<Rightarrow>
          if matches_filters filters name
          then (total_lines + tot, covered_lines + cov, matched_files @ [MatchedFile name cov tot])
          else st)"

definition calculate_from_gcov :: "world \<Rightarrow> string \<Rightarrow> string list \<Rightarrow> pyfloat option outcome" where
  "calculate_from_gcov w build_dir filters =
     (let gcda_files = rglob_gcda w build_dir in
      if gcda_files = [] then ([NoGcdaFiles build_dir], Inr None)
      else case run_all w gcda_files [] [] of
             (printed, Inl e) \<Rightarrow> (printed, Inl e)
           | (printed, Inr file_coverage) \<Rightarrow>
               (case foldl (gcov_step filters) (0, 0, []) file_coverage of
                  (total_lines, covered_lines, matched_files) \<Rightarrow>
                    finish printed filters total_lines covered_lines
                      (MatchedSummary (length matched_files) covered_lines total_lines
                         # matched_files)))"

section \<open>Dispatch\<close>

text \<open>
  \<open>main\<close> builds an \<open>argparse\<close> parser and calls \<open>parse_args\<close> on the command line.
  \<open>argparse\<close> is library code: what the parser of lines 170 to 194 does with a command
  line is taken as given, and it is either the namespace or the exit \<open>argparse\<close> makes
  itself (\<open>SystemExit\<close>): status 2 after a usage error reported on standard error, status 0
  after \<open>-h\<close> has printed the help on standard output. The process ends with the lines
  printed on standard output and on standard error and its exit status; an exception that
  leaves \<open>main\<close> prints a traceback on standard error and gives exit status 1.
\<close>

record arguments =
  args_json :: "string option"
  args_gcov_dir :: "string option"
  args_filters :: "string list option"

record process_result =
  stdout :: "string list"
  stderr :: "diagnostic list"
  exit_status :: int

definition default_filters :: "string list option \<Rightarrow> string list" where
  \<comment> \<open>\<open>args.filters if args.filters else ['src/']\<close>\<close>
  "default_filters fs = (case fs of None \<Rightarrow> [''src/''] | Some l \<Rightarrow> if l \<noteq> [] then l else [''src/''])"

definition dispatch :: "world \<Rightarrow> arguments \<Rightarrow> pyfloat option outcome" where
  \<comment> \<open>the statement \<open>if args.json: ... else: ...\<close>; \<open>Path(None)\<close> raises \<open>TypeError\<close>\<close>
  "dispatch w args =
     (let filters = default_filters (args_filters args) in
      if truthy (args_json args)
      then calculate_from_json (load_json w) (the (args_json args)) filters
      else case args_gcov_dir args of
             None \<Rightarrow> ([], Inl TypeError)
           | Some build_dir \<Rightarrow> calculate_from_gcov w build_dir filters)"

datatype parse_result =
    Parsed arguments
  | ParserExit int "string list" "diagnostic list"
      \<comment> \<open>\<open>argparse\<close> ended the process: exit status, the lines it printed on standard
          output and the lines it printed on standard error\<close>

definition main :: "(string list \<Rightarrow> parse_result) \<Rightarrow> world \<Rightarrow> string list \<Rightarrow> process_result" where
  \<comment> \<open>\<open>parse_args\<close> is \<open>parser.parse_args\<close> for the parser of lines 170 to 194, \<open>argv\<close> the
      command line\<close>
  "main parse_args w argv =
     (case parse_args argv of
        ParserExit status out err \<Rightarrow>
          \<lparr>stdout = out, stderr = err, exit_status = status\<rparr>
      | Parsed args \<Rightarrow>
          (case dispatch w args of
             (printed, Inr (Some coverage)) \<Rightarrow>
               \<lparr>stdout = [format_1f coverage], stderr = printed, exit_status = 0\<rparr>
           | (printed, Inr None) \<Rightarrow>
               \<lparr>stdout = [], stderr = printed, exit_status = 1\<rparr>
           | (printed, Inl e) \<Rightarrow>
               \<lparr>stdout = [], stderr = printed @ [Traceback e], exit_status = 1\<rparr>))"

definition skipped :: "world \<Rightarrow> string \<Rightarrow> bool" where
  \<comment> \<open>the annotator call for this data file ends in the \<open>except\<close> clause\<close>
  "skipped w gcda_file =
     (run_gcov w gcda_file = TimeoutExpired \<or> run_gcov w gcda_file = FileNotFoundError)"

definition within_range :: "string \<Rightarrow> bool" where
  \<comment> \<open>a line whose coverage numbers, if it has any, are a percentage of at most 100
      and a line count of at most \<open>2^46\<close>\<close>
  "within_range line =
     (case coverage_pattern_search line of
        None \<Rightarrow> True
      | Some (ip, fp, td) \<Rightarrow> decimal_value ip fp \<le> 100 \<and> nat_of_digits td \<le> 2 ^ 46)"

fun nonnegative :: "pyfloat \<Rightarrow> bool" where
  \<comment> \<open>a float that is not negative: sign bit clear, or \<open>nan\<close>\<close>
  "nonnegative (Finite s a) = (\<not> s \<and> 0 \<le> a)"
| "nonnegative (Infinite s) = (\<not> s)"
| "nonnegative NaN = True"

section \<open>Properties of the rounding\<close>

lemma two_powi_pos [simp]: "0 < (2::rat) powi e"
  by (simp add: zero_less_power_int)

lemma two_powi_mono: "a \<le> b \<Longrightarrow> (2::rat) powi a \<le> 2 powi b"
  by (rule power_int_increasing) simp_all

lemma two_powi_strict_mono: "a < b \<Longrightarrow> (2::rat) powi a < 2 powi b"
  by (rule power_int_strict_increasing) simp_all

lemma two_powi_nat: "0 \<le> k \<Longrightarrow> (2::rat) ^ nat k = 2 powi k"
  by (simp add: power_int_def)

lemma two_powi_diff: "(2::rat) powi a / 2 powi b = 2 powi (a - b)"
  by (simp add: power_int_diff)

lemma bitlen_pos: "0 < n \<Longrightarrow> 1 \<le> bitlen n"
  using bitlen_eq_zero_iff [of n] bitlen_nonneg [of n] by linarith

lemma bitlen_rat_bounds:
  assumes "0 < n"
  shows "(2::rat) powi (bitlen n - 1) \<le> of_int n" and "of_int n < (2::rat) powi (bitlen n)"
proof -
  from bitlen_bounds [OF assms] have a: "2 ^ nat (bitlen n - 1) \<le> n" and b: "n < 2 ^ nat (bitlen n)"
    by simp_all
  have p: "0 \<le> bitlen n - 1" "0 \<le> bitlen n" using bitlen_pos [OF assms] by simp_all
  from a have "(of_int (2 ^ nat (bitlen n - 1)) :: rat) \<le> of_int n"
    by (simp only: of_int_le_iff)
  then show "(2::rat) powi (bitlen n - 1) \<le> of_int n"
    using p by (simp add: power_int_def)
  from b have "(of_int n :: rat) < of_int (2 ^ nat (bitlen n))"
    by (simp only: of_int_less_iff)
  then show "of_int n < (2::rat) powi (bitlen n)"
    using p by (simp add: power_int_def)
qed

lemma ilog2_bounds:
  assumes "0 < x"
  shows "2 powi (ilog2 x) \<le> x" and "x < 2 powi (ilog2 x + 1)"
proof -
  obtain n d where q: "quotient_of x = (n, d)" by force
  have d: "0 < d" using quotient_of_denom_pos [OF q] .
  have x: "x = of_int n / of_int d" using quotient_of_div [OF q] .
  have n: "0 < n" using assms d x by (simp add: zero_less_divide_iff)
  define e where "e = bitlen n - bitlen d"
  note nb = bitlen_rat_bounds [OF n] and db = bitlen_rat_bounds [OF d]
  have dpos: "(0::rat) < of_int d" using d by simp
  have "of_int n < 2 powi (bitlen n - (bitlen d - 1)) * (2::rat) powi (bitlen d - 1)"
    using nb(2) by (simp add: power_int_add [symmetric])
  also have "\<dots> \<le> 2 powi (bitlen n - (bitlen d - 1)) * of_int d"
    using db(1) by (intro mult_left_mono) simp_all
  finally have up: "x < 2 powi (e + 1)"
    using dpos by (simp add: x e_def pos_divide_less_eq algebra_simps)
  have "2 powi (e - 1) * of_int d < 2 powi (e - 1) * (2::rat) powi (bitlen d)"
    using db(2) by (intro mult_strict_left_mono) simp_all
  also have "\<dots> = 2 powi (bitlen n - 1)"
    by (simp add: power_int_add [symmetric] e_def)
  also have "\<dots> \<le> of_int n" using nb(1) .
  finally have lo: "2 powi (e - 1) < x"
    using dpos by (simp add: x pos_less_divide_eq)
  have il: "ilog2 x = (if 2 powi e \<le> x then e else e - 1)"
    by (simp add: ilog2_def q e_def Let_def)
  show "2 powi (ilog2 x) \<le> x"
    using lo by (simp add: il)
  show "x < 2 powi (ilog2 x + 1)"
    using up by (simp add: il not_le)
qed

lemma ilog2_unique:
  assumes "0 < x" "2 powi e \<le> x" "x < 2 powi (e + 1)"
  shows "ilog2 x = e"
proof (rule ccontr)
  assume ne: "ilog2 x \<noteq> e"
  note b = ilog2_bounds [OF assms(1)]
  show False
  proof (cases "ilog2 x < e")
    case True
    then have "(2::rat) powi (ilog2 x + 1) \<le> 2 powi e" by (intro two_powi_mono) simp
    with b(2) assms(2) show False by simp
  next
    case False
    with ne have "e + 1 \<le> ilog2 x" by simp
    then have "(2::rat) powi (e + 1) \<le> 2 powi (ilog2 x)" by (rule two_powi_mono)
    with b(1) assms(3) show False by simp
  qed
qed

lemma ilog2_mono:
  assumes "0 < x" "x \<le> y"
  shows "ilog2 x \<le> ilog2 y"
proof (rule ccontr)
  assume "\<not> ilog2 x \<le> ilog2 y"
  then have "ilog2 y + 1 \<le> ilog2 x" by simp
  then have "(2::rat) powi (ilog2 y + 1) \<le> 2 powi (ilog2 x)" by (rule two_powi_mono)
  moreover have "0 < y" using assms by simp
  ultimately show False
    using ilog2_bounds(1) [OF assms(1)] ilog2_bounds(2) [OF \<open>0 < y\<close>] assms(2) by simp
qed

lemma two_powi_add: "(2::rat) powi a * 2 powi b = 2 powi (a + b)"
  by (simp add: power_int_add)

lemma two_powi_add_eq: "a + b = c \<Longrightarrow> (2::rat) powi a * 2 powi b = 2 powi c"
  using power_int_add [of "2::rat" a b] by simp

lemma two_powi_diff_eq: "a - b = c \<Longrightarrow> (2::rat) powi a / 2 powi b = 2 powi c"
  using power_int_diff [of "2::rat" a b] by simp

lemma round_half_even_error: "\<bar>of_int (round_half_even x) - x\<bar> \<le> 1 / 2"
proof -
  have "of_int \<lfloor>x\<rfloor> \<le> x" "x < of_int \<lfloor>x\<rfloor> + 1" by linarith+
  then show ?thesis
    by (auto simp add: round_half_even_def Let_def)
qed

lemma round_half_even_of_int [simp]: "round_half_even (of_int k) = k"
  by (simp add: round_half_even_def)

lemma round_half_even_ge: "of_int k \<le> x \<Longrightarrow> k \<le> round_half_even x"
proof -
  assume "of_int k \<le> x"
  then have "k \<le> \<lfloor>x\<rfloor>" by (simp add: le_floor_iff)
  then show ?thesis by (auto simp add: round_half_even_def Let_def)
qed

lemma round_half_even_le: "x \<le> of_int k \<Longrightarrow> round_half_even x \<le> k"
proof -
  assume a: "x \<le> of_int k"
  show ?thesis
  proof (cases "x = of_int k")
    case True
    then show ?thesis by simp
  next
    case False
    with a have "x < of_int k" by simp
    then have "\<lfloor>x\<rfloor> < k" by (simp add: floor_less_iff)
    then show ?thesis by (auto simp add: round_half_even_def Let_def)
  qed
qed

lemma round_half_even_mono: "x \<le> y \<Longrightarrow> round_half_even x \<le> round_half_even y"
proof -
  assume xy: "x \<le> y"
  then have fl: "\<lfloor>x\<rfloor> \<le> \<lfloor>y\<rfloor>" by (rule floor_mono)
  show ?thesis
  proof (cases "\<lfloor>x\<rfloor> = \<lfloor>y\<rfloor>")
    case True
    with xy show ?thesis
      by (auto simp add: round_half_even_def Let_def)
  next
    case False
    with fl have "\<lfloor>x\<rfloor> + 1 \<le> \<lfloor>y\<rfloor>" by simp
    moreover have "round_half_even x \<le> \<lfloor>x\<rfloor> + 1"
      by (auto simp add: round_half_even_def Let_def)
    moreover have "\<lfloor>y\<rfloor> \<le> round_half_even y"
      by (auto simp add: round_half_even_def Let_def)
    ultimately show ?thesis by linarith
  qed
qed

lemma quantum_pos [simp]: "0 < quantum x"
  by (simp add: quantum_def)

lemma quantum_nonneg [simp]: "0 \<le> quantum x"
  by (rule less_imp_le [OF quantum_pos])

lemma quantum_neq0 [simp]: "quantum x \<noteq> 0"
  by (simp add: quantum_def)

lemma round_nearest_nonneg: "0 \<le> x \<Longrightarrow> 0 \<le> round_nearest x"
proof -
  assume "0 \<le> x"
  then have "0 \<le> x / quantum x" by (intro divide_nonneg_pos quantum_pos)
  then have "of_int 0 \<le> x / quantum x" by simp
  then have "0 \<le> round_half_even (x / quantum x)" by (rule round_half_even_ge)
  then have "(0::rat) \<le> of_int (round_half_even (x / quantum x))" by simp
  then have "0 \<le> of_int (round_half_even (x / quantum x)) * quantum x"
    by (intro mult_nonneg_nonneg less_imp_le [OF quantum_pos])
  then show ?thesis by (simp add: round_nearest_def)
qed

lemma round_nearest_error: "\<bar>round_nearest x - x\<bar> \<le> quantum x / 2"
proof (cases "x = 0")
  case True
  then show ?thesis by (simp add: round_nearest_def)
next
  case False
  have "\<bar>of_int (round_half_even (x / quantum x)) - x / quantum x\<bar> * quantum x \<le> 1 / 2 * quantum x"
    by (intro mult_right_mono round_half_even_error) simp
  moreover have "\<bar>of_int (round_half_even (x / quantum x)) - x / quantum x\<bar> * quantum x
      = \<bar>of_int (round_half_even (x / quantum x)) * quantum x - x\<bar>"
  proof -
    have "\<bar>of_int (round_half_even (x / quantum x)) - x / quantum x\<bar> * quantum x
        = \<bar>(of_int (round_half_even (x / quantum x)) - x / quantum x) * quantum x\<bar>"
      by (simp add: abs_mult)
    also have "(of_int (round_half_even (x / quantum x)) - x / quantum x) * quantum x
        = of_int (round_half_even (x / quantum x)) * quantum x - x"
      by (simp add: left_diff_distrib)
    finally show ?thesis .
  qed
  ultimately show ?thesis using False by (simp add: round_nearest_def)
qed

text \<open>Rounding at a known exponent.\<close>

lemma quantum_eq:
  assumes "2 powi e \<le> x" "x < 2 powi (e + 1)"
  shows "quantum x = 2 powi (max e (- 1022) - 52)"
proof -
  have "0 < x" using assms(1) two_powi_pos [of e] by linarith
  from ilog2_unique [OF this assms] show ?thesis by (simp add: quantum_def)
qed

lemma round_nearest_eq:
  assumes "2 powi e \<le> x" "x < 2 powi (e + 1)"
  shows "round_nearest x =
    of_int (round_half_even (x / 2 powi (max e (- 1022) - 52))) * 2 powi (max e (- 1022) - 52)"
proof -
  have "0 < x" using assms(1) two_powi_pos [of e] by linarith
  then show ?thesis by (simp add: round_nearest_def quantum_eq [OF assms])
qed

text \<open>Values with at most 53 significant bits above the subnormal spacing are kept.\<close>

lemma round_nearest_integral:
  assumes "x / quantum x = of_int i"
  shows "round_nearest x = x"
proof -
  have "of_int i * quantum x = x"
    using assms [symmetric] by simp
  then show ?thesis by (simp add: round_nearest_def assms)
qed

lemma round_nearest_exact_less:
  assumes m: "0 \<le> m" "m < 2 ^ 53" and j: "- 1074 \<le> j"
  shows "round_nearest (of_int m * 2 powi j) = of_int m * 2 powi j"
proof (cases "m = 0")
  case True
  then show ?thesis by (simp add: round_nearest_def)
next
  case False
  define x :: rat where "x = of_int m * 2 powi j"
  have mpos: "0 < m" using m(1) False by simp
  then have xpos: "0 < x" by (simp add: x_def)
  define k where "k = max (ilog2 x) (- 1022) - 52"
  have "(of_int m :: rat) < of_int (2 ^ 53)" using m(2) by (simp only: of_int_less_iff)
  then have "(of_int m :: rat) < 2 powi 53" by simp
  then have "x < 2 powi 53 * 2 powi j" by (simp add: x_def)
  then have xlt: "x < 2 powi (53 + j)" by (simp add: power_int_add)
  have "ilog2 x < 53 + j"
  proof (rule ccontr)
    assume "\<not> ilog2 x < 53 + j"
    then have "(2::rat) powi (53 + j) \<le> 2 powi (ilog2 x)" by (intro two_powi_mono) simp
    with ilog2_bounds(1) [OF xpos] xlt show False by simp
  qed
  then have kj: "k \<le> j" using j by (simp add: k_def)
  have q: "quantum x = 2 powi k" by (simp add: quantum_def k_def)
  have "x / quantum x = x / 2 powi k" by (simp only: q)
  also have "\<dots> = of_int m * (2 powi j / 2 powi k)" by (simp add: x_def)
  also have "\<dots> = of_int m * 2 powi (j - k)" by (simp only: two_powi_diff)
  also have "\<dots> = of_int m * 2 ^ nat (j - k)"
    using kj by (simp add: power_int_def)
  also have "\<dots> = of_int (m * 2 ^ nat (j - k))" by simp
  finally have "round_nearest x = x" by (rule round_nearest_integral)
  then show ?thesis by (simp add: x_def)
qed

lemma round_nearest_exact:
  assumes m: "0 \<le> m" "m \<le> 2 ^ 53" and j: "- 1074 \<le> j"
  shows "round_nearest (of_int m * 2 powi j) = of_int m * 2 powi j"
proof (cases "m = 2 ^ 53")
  case True
  have "round_nearest (of_int (2 ^ 52) * 2 powi (j + 1)) = of_int (2 ^ 52) * 2 powi (j + 1)"
    using j by (intro round_nearest_exact_less) simp_all
  moreover have "(of_int (2 ^ 52) :: rat) * 2 powi (j + 1) = of_int m * 2 powi j"
    by (simp add: True power_int_add)
  ultimately show ?thesis by simp
next
  case False
  with m have "m < 2 ^ 53" by simp
  with m(1) j show ?thesis by (intro round_nearest_exact_less)
qed

lemma round_nearest_of_int:
  assumes "0 \<le> m" "m \<le> 2 ^ 53"
  shows "round_nearest (of_int m) = of_int m"
  using round_nearest_exact [OF assms, of 0] by simp

lemma round_nearest_two_powi:
  assumes "- 1074 \<le> j"
  shows "round_nearest (2 powi j) = 2 powi j"
  using round_nearest_exact [of 1 j] assms by simp

text \<open>Rounding is monotone.\<close>

lemma round_nearest_upper:
  assumes "0 < x"
  shows "round_nearest x \<le> 2 powi (max (ilog2 x) (- 1022) + 1)"
proof -
  define e where "e = max (ilog2 x) (- 1022)"
  have q: "quantum x = 2 powi (e - 52)" by (simp add: quantum_def e_def)
  have "x < 2 powi (ilog2 x + 1)" by (rule ilog2_bounds(2) [OF assms])
  also have "\<dots> \<le> 2 powi (e + 1)" by (intro two_powi_mono) (simp add: e_def)
  finally have "x / quantum x \<le> 2 powi (e + 1) / 2 powi (e - 52)"
    by (simp add: q divide_right_mono)
  also have "\<dots> = 2 powi 53" by (rule two_powi_diff_eq) simp
  also have "\<dots> = of_int (2 ^ 53)" by simp
  finally have "round_half_even (x / quantum x) \<le> 2 ^ 53" by (rule round_half_even_le)
  then have "(of_int (round_half_even (x / quantum x)) :: rat) \<le> of_int (2 ^ 53)"
    by (simp only: of_int_le_iff)
  then have "of_int (round_half_even (x / quantum x)) * quantum x \<le> of_int (2 ^ 53) * quantum x"
    by (intro mult_right_mono) simp_all
  also have "\<dots> = 2 powi 53 * 2 powi (e - 52)" by (simp add: q)
  also have "\<dots> = 2 powi (e + 1)" by (rule two_powi_add_eq) simp
  finally show ?thesis using assms by (simp add: round_nearest_def e_def)
qed

lemma round_nearest_lower:
  assumes "0 < x" "- 1022 \<le> ilog2 x"
  shows "2 powi (ilog2 x) \<le> round_nearest x"
proof -
  define e where "e = ilog2 x"
  have q: "quantum x = 2 powi (e - 52)" using assms(2) by (simp add: quantum_def e_def max_def)
  have "of_int (2 ^ 52) = (2::rat) powi 52" by simp
  also have "\<dots> = 2 powi e / 2 powi (e - 52)" by (rule two_powi_diff_eq [symmetric]) simp
  also have "\<dots> \<le> x / quantum x"
    using ilog2_bounds(1) [OF assms(1)] by (simp add: q e_def divide_right_mono)
  finally have "2 ^ 52 \<le> round_half_even (x / quantum x)" by (rule round_half_even_ge)
  then have "(of_int (2 ^ 52) :: rat) \<le> of_int (round_half_even (x / quantum x))"
    by (simp only: of_int_le_iff)
  then have r: "of_int (2 ^ 52) * quantum x \<le> of_int (round_half_even (x / quantum x)) * quantum x"
    by (intro mult_right_mono) simp_all
  have "(2::rat) powi e = 2 powi 52 * 2 powi (e - 52)"
    by (rule two_powi_add_eq [symmetric]) simp
  also have "\<dots> = of_int (2 ^ 52) * quantum x" by (simp add: q)
  also note r
  finally have "2 powi e \<le> of_int (round_half_even (x / quantum x)) * quantum x" .
  then show ?thesis using assms(1) by (simp add: round_nearest_def e_def)
qed

lemma round_nearest_mono:
  assumes "0 \<le> x" "x \<le> y"
  shows "round_nearest x \<le> round_nearest y"
proof (cases "x = 0")
  case True
  then show ?thesis using assms round_nearest_nonneg [of y] by (simp add: round_nearest_def)
next
  case False
  then have xpos: "0 < x" and ypos: "0 < y" using assms by simp_all
  define ex ey where "ex = max (ilog2 x) (- 1022)" and "ey = max (ilog2 y) (- 1022)"
  have le: "ex \<le> ey" using ilog2_mono [OF xpos assms(2)] by (simp add: ex_def ey_def)
  show ?thesis
  proof (cases "ex = ey")
    case True
    then have q: "quantum x = quantum y" by (simp add: quantum_def ex_def ey_def)
    have "x / quantum y \<le> y / quantum y" using assms(2) by (simp add: divide_right_mono)
    then have "round_half_even (x / quantum y) \<le> round_half_even (y / quantum y)"
      by (rule round_half_even_mono)
    then have "(of_int (round_half_even (x / quantum y)) :: rat)
        \<le> of_int (round_half_even (y / quantum y))"
      by (simp only: of_int_le_iff)
    then have "of_int (round_half_even (x / quantum y)) * quantum y
        \<le> of_int (round_half_even (y / quantum y)) * quantum y"
      by (intro mult_right_mono) simp_all
    then show ?thesis using xpos ypos by (simp add: round_nearest_def q)
  next
    case False
    with le have lt: "ex + 1 \<le> ey" by simp
    then have "- 1022 < ey" by (simp add: ex_def)
    then have ey: "ey = ilog2 y" "- 1022 \<le> ilog2 y" by (simp_all add: ey_def max_def split: if_splits)
    have "round_nearest x \<le> 2 powi (ex + 1)"
      using round_nearest_upper [OF xpos] by (simp add: ex_def)
    also have "\<dots> \<le> 2 powi ey" using lt by (rule two_powi_mono)
    also have "\<dots> \<le> round_nearest y"
      using round_nearest_lower [OF ypos ey(2)] by (simp add: ey(1))
    finally show ?thesis .
  qed
qed

lemma round_half_even_frac:
  assumes "0 < b"
  shows "round_half_even (of_int a / of_int b) =
    (if 2 * (a mod b) < b then a div b
     else if b < 2 * (a mod b) then a div b + 1
     else if even (a div b) then a div b else a div b + 1)"
proof -
  have f: "\<lfloor>(of_int a :: rat) / of_int b\<rfloor> = a div b"
    by (simp add: floor_divide_of_int_eq)
  have bpos: "(0::rat) < of_int b" using assms by simp
  have "b * (a div b) + a mod b = a" by simp
  then have "(of_int (b * (a div b) + a mod b) :: rat) = of_int a" by (rule arg_cong)
  then have "(of_int a :: rat) = of_int b * of_int (a div b) + of_int (a mod b)"
    by (simp only: of_int_add of_int_mult)
  then have r: "(of_int a :: rat) / of_int b - of_int (a div b) = of_int (a mod b) / of_int b"
    using bpos by (simp add: field_simps)
  have lt: "(of_int (a mod b) / of_int b < (1::rat) / 2) = (2 * (a mod b) < b)"
  proof -
    have "(of_int (a mod b) / of_int b < (1::rat) / 2) = ((of_int (2 * (a mod b)) :: rat) < of_int b)"
      using bpos by (simp add: field_simps)
    then show ?thesis by (simp only: of_int_less_iff)
  qed
  have gt: "((1::rat) / 2 < of_int (a mod b) / of_int b) = (b < 2 * (a mod b))"
  proof -
    have "((1::rat) / 2 < of_int (a mod b) / of_int b) = ((of_int b :: rat) < of_int (2 * (a mod b)))"
      using bpos by (simp add: field_simps)
    then show ?thesis by (simp only: of_int_less_iff)
  qed
  show ?thesis
    by (simp only: round_half_even_def Let_def f r lt gt)
qed

lemma round_nearest_frac:
  assumes "0 < b" "2 powi e \<le> (of_int a :: rat) / of_int b"
    "(of_int a :: rat) / of_int b < 2 powi (e + 1)" "- 1022 \<le> e" "e \<le> 52"
  shows "round_nearest (of_int a / of_int b) =
    (let n = a * 2 ^ nat (52 - e); f = n div b; m = 2 * (n mod b)
     in of_int (if m < b then f else if b < m then f + 1 else if even f then f else f + 1)
        / 2 ^ nat (52 - e))"
proof -
  have k: "max e (- 1022) - 52 = - int (nat (52 - e))" using assms(4,5) by simp
  have p: "(2::rat) powi (max e (- 1022) - 52) = 1 / 2 ^ nat (52 - e)"
    by (simp only: k power_int_minus power_int_of_nat) (simp add: field_simps)
  have "round_nearest (of_int a / of_int b) =
      of_int (round_half_even (of_int a / of_int b / (1 / 2 ^ nat (52 - e)))) * (1 / 2 ^ nat (52 - e))"
    by (simp only: round_nearest_eq [OF assms(2,3)] p)
  also have "of_int a / of_int b / (1 / 2 ^ nat (52 - e)) = (of_int (a * 2 ^ nat (52 - e)) :: rat) / of_int b"
    by simp
  finally show ?thesis
    by (simp only: round_half_even_frac [OF assms(1)] Let_def) simp
qed

lemma round_magnitude_Some:
  assumes "0 \<le> x" "x \<le> 2 powi 1023"
  shows "round_magnitude x = Some (round_nearest x)"
proof -
  have "round_nearest x \<le> round_nearest (2 powi 1023)"
    using assms by (rule round_nearest_mono)
  also have "\<dots> = 2 powi 1023" by (rule round_nearest_two_powi) simp
  also have "\<dots> < 2 powi 1024" by (rule two_powi_strict_mono) simp
  finally show ?thesis by (simp only: round_magnitude_def Let_def not_le [symmetric] if_False)
qed


lemma round_magnitude_frac:
  assumes "0 < b" "2 powi e \<le> (of_int a :: rat) / of_int b"
    "(of_int a :: rat) / of_int b < 2 powi (e + 1)" "- 1022 \<le> e" "e \<le> 52"
  shows "round_magnitude (of_int a / of_int b) =
    Some (let n = a * 2 ^ nat (52 - e); f = n div b; m = 2 * (n mod b)
          in of_int (if m < b then f else if b < m then f + 1 else if even f then f else f + 1)
             / 2 ^ nat (52 - e))"
proof -
  have "0 \<le> (of_int a :: rat) / of_int b"
    using assms(2) two_powi_pos [of e] by linarith
  moreover have "(of_int a :: rat) / of_int b \<le> 2 powi 1023"
  proof -
    have "(2::rat) powi (e + 1) \<le> 2 powi 1023" using assms(5) by (intro two_powi_mono) simp
    with assms(3) show ?thesis by linarith
  qed
  ultimately have "round_magnitude (of_int a / of_int b) = Some (round_nearest (of_int a / of_int b))"
    by (rule round_magnitude_Some)
  then show ?thesis by (simp only: round_nearest_frac [OF assms])
qed

lemma float_of_int_exact:
  assumes "0 \<le> n" "n \<le> 2 ^ 53"
  shows "float_of_int n = Inr (Finite False (of_int n))"
proof -
  have "(of_int n :: rat) \<le> of_int (2 ^ 53)" using assms(2) by (simp only: of_int_le_iff)
  also have "\<dots> = 2 powi 53" by simp
  also have "\<dots> \<le> 2 powi 1023" by (rule two_powi_mono) simp
  finally have "round_magnitude (of_int n) = Some (round_nearest (of_int n))"
    using assms(1) by (intro round_magnitude_Some) simp_all
  then show ?thesis
    using assms by (simp add: float_of_int_def round_nearest_of_int)
qed

lemma floor_rat_numeral: "\<lfloor>(numeral a :: rat) / numeral b\<rfloor> = numeral a div numeral b"
  using floor_divide_of_int_eq [of "numeral a" "numeral b", where ?'a = rat] by simp

section \<open>Properties of the filter\<close>

lemma str_contains_sublist: "str_contains p s \<longleftrightarrow> sublist p s"
  by (induction s) (simp_all add: sublist_Cons_right)

lemma str_contains_iff: "str_contains p s \<longleftrightarrow> (\<exists>ps ss. s = ps @ p @ ss)"
  by (simp add: str_contains_sublist sublist_def)

lemma matches_filters_iff:
  "matches_filters filters name \<longleftrightarrow> (\<exists>p \<in> set filters. \<exists>ps ss. name = ps @ p @ ss)"
  by (simp add: matches_filters_def list_ex_iff str_contains_iff)

lemma json_step_iff:
  "json_step filters (t, c, m) entry =
     (if (\<exists>p \<in> set filters. \<exists>ps ss. get_default (filename entry) [] = ps @ p @ ss)
         \<and> 0 < get_default (line_total entry) 0
      then (t + get_default (line_total entry) 0, c + get_default (line_covered entry) 0,
            m @ [get_default (filename entry) []])
      else (t, c, m))"
  by (simp add: json_step_def matches_filters_iff Let_def)

lemma gcov_step_iff:
  "gcov_step filters (t, c, m) (name, cov, tot) =
     (if (\<exists>p \<in> set filters. \<exists>ps ss. name = ps @ p @ ss)
      then (t + tot, c + cov, m @ [MatchedFile name cov tot])
      else (t, c, m))"
  by (simp add: gcov_step_def matches_filters_iff)

lemma dispatch_no_filters:
  "dispatch w (args\<lparr>args_filters := None\<rparr>) = dispatch w (args\<lparr>args_filters := Some [''src/'']\<rparr>)"
  by (simp add: dispatch_def default_filters_def Let_def)

lemma dispatch_empty_filters:
  "dispatch w (args\<lparr>args_filters := Some []\<rparr>) = dispatch w (args\<lparr>args_filters := Some [''src/'']\<rparr>)"
  by (simp add: dispatch_def default_filters_def Let_def)

lemma main_same_dispatch:
  assumes "parse_args argv = Parsed a" "parse_args argv' = Parsed b" "dispatch w a = dispatch w b"
  shows "main parse_args w argv = main parse_args w argv'"
  using assms by (simp add: main_def)

lemma main_no_filters:
  assumes "parse_args argv = Parsed (args\<lparr>args_filters := None\<rparr>)"
    and "parse_args argv' = Parsed (args\<lparr>args_filters := Some [''src/'']\<rparr>)"
  shows "main parse_args w argv = main parse_args w argv'"
  using assms dispatch_no_filters by (rule main_same_dispatch)

lemma main_empty_filters:
  assumes "parse_args argv = Parsed (args\<lparr>args_filters := Some []\<rparr>)"
    and "parse_args argv' = Parsed (args\<lparr>args_filters := Some [''src/'']\<rparr>)"
  shows "main parse_args w argv = main parse_args w argv'"
  using assms dispatch_empty_filters by (rule main_same_dispatch)

text \<open>
  C9: Filtering is substring matching, OR-combined over the patterns, in both extractors:
  a filename matches iff some pattern of the filter set occurs in it as a contiguous
  substring, and each extractor counts an entry exactly on that condition (the JSON
  extractor also asks for a positive \<open>line_total\<close>). A run without filter patterns, or with
  an empty list of them, behaves as the run with the single pattern \<open>src/\<close>: the extractor
  called, its result and the whole outcome of the process are the same.
\<close>

theorem filtering_is_substring_or_matching:
  "(matches_filters filters name \<longleftrightarrow> (\<exists>p \<in> set filters. \<exists>ps ss. name = ps @ p @ ss))
   \<and> json_step filters (t, c, m) entry =
       (if (\<exists>p \<in> set filters. \<exists>ps ss. get_default (filename entry) [] = ps @ p @ ss)
           \<and> 0 < get_default (line_total entry) 0
        then (t + get_default (line_total entry) 0, c + get_default (line_covered entry) 0,
              m @ [get_default (filename entry) []])
        else (t, c, m))
   \<and> gcov_step filters (t, c, d) (name, cov, tot) =
       (if (\<exists>p \<in> set filters. \<exists>ps ss. name = ps @ p @ ss)
        then (t + tot, c + cov, d @ [MatchedFile name cov tot])
        else (t, c, d))
   \<and> dispatch w (args\<lparr>args_filters := None\<rparr>) = dispatch w (args\<lparr>args_filters := Some [''src/'']\<rparr>)
   \<and> dispatch w (args\<lparr>args_filters := Some []\<rparr>) = dispatch w (args\<lparr>args_filters := Some [''src/'']\<rparr>)
   \<and> (parse_args argv = Parsed (args\<lparr>args_filters := None\<rparr>) \<longrightarrow>
        parse_args argv' = Parsed (args\<lparr>args_filters := Some [''src/'']\<rparr>) \<longrightarrow>
        main parse_args w argv = main parse_args w argv')
   \<and> (parse_args argv = Parsed (args\<lparr>args_filters := Some []\<rparr>) \<longrightarrow>
        parse_args argv' = Parsed (args\<lparr>args_filters := Some [''src/'']\<rparr>) \<longrightarrow>
        main parse_args w argv = main parse_args w argv')"
proof (intro conjI impI)
  show "matches_filters filters name \<longleftrightarrow> (\<exists>p \<in> set filters. \<exists>ps ss. name = ps @ p @ ss)"
    by (rule matches_filters_iff)
  show "json_step filters (t, c, m) entry =
       (if (\<exists>p \<in> set filters. \<exists>ps ss. get_default (filename entry) [] = ps @ p @ ss)
           \<and> 0 < get_default (line_total entry) 0
        then (t + get_default (line_total entry) 0, c + get_default (line_covered entry) 0,
              m @ [get_default (filename entry) []])
        else (t, c, m))"
    by (rule json_step_iff)
  show "gcov_step filters (t, c, d) (name, cov, tot) =
       (if (\<exists>p \<in> set filters. \<exists>ps ss. name = ps @ p @ ss)
        then (t + tot, c + cov, d @ [MatchedFile name cov tot])
        else (t, c, d))"
    by (rule gcov_step_iff)
  show "dispatch w (args\<lparr>args_filters := None\<rparr>) = dispatch w (args\<lparr>args_filters := Some [''src/'']\<rparr>)"
    by (rule dispatch_no_filters)
  show "dispatch w (args\<lparr>args_filters := Some []\<rparr>) = dispatch w (args\<lparr>args_filters := Some [''src/'']\<rparr>)"
    by (rule dispatch_empty_filters)
next
  assume "parse_args argv = Parsed (args\<lparr>args_filters := None\<rparr>)"
    "parse_args argv' = Parsed (args\<lparr>args_filters := Some [''src/'']\<rparr>)"
  then show "main parse_args w argv = main parse_args w argv'"
    by (rule main_no_filters)
next
  assume "parse_args argv = Parsed (args\<lparr>args_filters := Some []\<rparr>)"
    "parse_args argv' = Parsed (args\<lparr>args_filters := Some [''src/'']\<rparr>)"
  then show "main parse_args w argv = main parse_args w argv'"
    by (rule main_empty_filters)
qed

theorem filtering_is_substring_or_matching_witness:
  "matches_filters [''src/'', ''lib/''] ''x/lib/b.c''
   \<and> gcov_step [''src/'', ''lib/''] (0, 0, []) (''x/lib/b.c'', 3, 4)
       = (4, 3, [MatchedFile ''x/lib/b.c'' 3 4])"
proof -
  have "''x/lib/b.c'' = ''x/'' @ ''lib/'' @ ''b.c''"
    by simp
  then have ex: "\<exists>p \<in> set [''src/'', ''lib/'']. \<exists>ps ss. ''x/lib/b.c'' = ps @ p @ ss"
    by (metis list.set_intros(1) list.set_intros(2))
  show ?thesis
    using ex filtering_is_substring_or_matching
      [of "[''src/'', ''lib/'']" "''x/lib/b.c''" 0 0 "[]" _ "[]" 3 4]
    by simp
qed







section \<open>Properties of the table\<close>

lemma store_coverage_lookup:
  "map_of (store_coverage tbl f (cov, tot)) f =
     (case map_of tbl f of
        None \<Rightarrow> Some (cov, tot)
      | Some (prev_cov, prev_total) \<Rightarrow>
          if prev_total < tot then Some (cov, tot) else Some (prev_cov, prev_total))"
  by (auto simp add: store_coverage_def update_conv' split: option.splits)

lemma store_coverage_other:
  "g \<noteq> f \<Longrightarrow> map_of (store_coverage tbl f e) g = map_of tbl g"
  by (auto simp add: store_coverage_def update_conv' split: option.splits)

text \<open>
  C2: When a coverage line is recorded for a filename that the table already holds, the
  new entry replaces the stored one iff its total is strictly larger; with an equal or
  smaller total the stored (first seen) entry is kept. A filename not yet in the table gets
  the new entry, and the entries of the other filenames are untouched.
\<close>

theorem duplicate_keeps_strictly_greater_total:
  "map_of (store_coverage tbl f (cov, tot)) f =
     (case map_of tbl f of
        None \<Rightarrow> Some (cov, tot)
      | Some (prev_cov, prev_total) \<Rightarrow>
          if prev_total < tot then Some (cov, tot) else Some (prev_cov, prev_total))
   \<and> (\<forall>g. g \<noteq> f \<longrightarrow> map_of (store_coverage tbl f (cov, tot)) g = map_of tbl g)"
  by (intro conjI allI impI) (rule store_coverage_lookup, erule store_coverage_other)

theorem duplicate_keeps_strictly_greater_total_witness:
  "map_of (store_coverage [(''src/foo.c'', (30, 40))] ''src/foo.c'' (10, 40)) ''src/foo.c''
     = Some (30, 40)
   \<and> map_of (store_coverage [(''src/foo.c'', (30, 40))] ''src/foo.c'' (10, 41)) ''src/foo.c''
     = Some (10, 41)"
  using duplicate_keeps_strictly_greater_total [of "[(''src/foo.c'', (30, 40))]" "''src/foo.c''" 10 40]
    duplicate_keeps_strictly_greater_total [of "[(''src/foo.c'', (30, 40))]" "''src/foo.c''" 10 41]
  by simp

section \<open>Properties of the failure paths\<close>

lemma run_all_skip:
  "skipped w g \<Longrightarrow>
   run_all w (g # rest) tbl printed = run_all w rest tbl (printed @ [FailedToRunGcov g])"
  by (auto simp add: skipped_def)

lemma run_all_result_printed:
  "snd (run_all w gs tbl printed) = snd (run_all w gs tbl printed')"
  by (induction gs arbitrary: tbl printed printed')
     (auto split: run_result.splits sum.splits)

lemma run_all_filter:
  "snd (run_all w gs tbl printed) = snd (run_all w (filter (\<lambda>g. \<not> skipped w g) gs) tbl printed)"
proof (induction gs arbitrary: tbl printed)
  case Nil
  show ?case by simp
next
  case (Cons g gs)
  show ?case
  proof (cases "skipped w g")
    case True
    have "snd (run_all w (g # gs) tbl printed)
        = snd (run_all w gs tbl (printed @ [FailedToRunGcov g]))"
      by (simp only: run_all_skip [OF True])
    also have "\<dots> = snd (run_all w gs tbl printed)"
      by (rule run_all_result_printed)
    also have "\<dots> = snd (run_all w (filter (\<lambda>g. \<not> skipped w g) gs) tbl printed)"
      by (rule Cons.IH)
    finally show ?thesis using True by simp
  next
    case False
    then show ?thesis
      using Cons.IH by (auto simp add: skipped_def split: run_result.splits sum.splits)
  qed
qed

lemma run_all_warnings:
  "run_all w gs tbl printed = (printed', Inr tbl') \<Longrightarrow>
   printed' = printed @ map FailedToRunGcov (filter (skipped w) gs)"
proof (induction gs arbitrary: tbl printed)
  case Nil
  then show ?case by simp
next
  case (Cons g gs)
  show ?case
  proof (cases "skipped w g")
    case True
    from Cons.prems have "run_all w gs tbl (printed @ [FailedToRunGcov g]) = (printed', Inr tbl')"
      by (simp only: run_all_skip [OF True])
    from Cons.IH [OF this] show ?thesis using True by simp
  next
    case False
    show ?thesis
    proof (cases "run_gcov w g")
      case (Completed out err)
      show ?thesis
      proof (cases "parse_output (int_max_str_digits w) tbl (out @ err)")
        case (Inl e)
        with Completed Cons.prems show ?thesis by simp
      next
        case (Inr tbl2)
        with Completed Cons.prems have "run_all w gs tbl2 printed = (printed', Inr tbl')"
          by simp
        from Cons.IH [OF this] show ?thesis using False by simp
      qed
    next
      case TimeoutExpired
      with False show ?thesis by (simp add: skipped_def)
    next
      case FileNotFoundError
      with False show ?thesis by (simp add: skipped_def)
    next
      case (RunRaised e)
      with Cons.prems show ?thesis by simp
    qed
  qed
qed

text \<open>
  C7: A data file whose annotator call times out or whose annotator binary is missing is
  skipped: a warning is printed, the table accumulated so far is kept, and the loop goes on
  with the remaining data files. The result of the loop is the result over the data files
  that are not skipped, and a loop that ends normally has printed one warning for each
  skipped file and nothing else.
\<close>

theorem failed_annotator_call_is_skipped:
  "(skipped w g \<longrightarrow>
      run_all w (g # rest) tbl printed = run_all w rest tbl (printed @ [FailedToRunGcov g]))
   \<and> snd (run_all w gs tbl printed)
       = snd (run_all w (filter (\<lambda>g. \<not> skipped w g) gs) tbl printed)
   \<and> (run_all w gs tbl printed = (printed', Inr tbl') \<longrightarrow>
        printed' = printed @ map FailedToRunGcov (filter (skipped w) gs))"
  by (intro conjI impI) (erule run_all_skip, rule run_all_filter, erule run_all_warnings)

theorem failed_annotator_call_is_skipped_witness:
  "run_all \<lparr>load_json = (\<lambda>p. FileNotFound []), rglob_gcda = (\<lambda>d. [''a.gcda'', ''b.gcda'']),
            run_gcov = (\<lambda>g. if g = ''a.gcda'' then TimeoutExpired else FileNotFoundError),
            int_max_str_digits = 4300\<rparr>
     [''a.gcda'', ''b.gcda''] [(''src/foo.c'', (30, 40))] []
   = ([FailedToRunGcov ''a.gcda'', FailedToRunGcov ''b.gcda''], Inr [(''src/foo.c'', (30, 40))])"
proof -
  let ?w = "\<lparr>load_json = (\<lambda>p. FileNotFound []), rglob_gcda = (\<lambda>d. [''a.gcda'', ''b.gcda'']),
            run_gcov = (\<lambda>g. if g = ''a.gcda'' then TimeoutExpired else FileNotFoundError),
            int_max_str_digits = 4300\<rparr>"
  have a: "skipped ?w ''a.gcda''" and b: "skipped ?w ''b.gcda''"
    by (simp_all add: skipped_def)
  have "run_all ?w (''a.gcda'' # [''b.gcda'']) [(''src/foo.c'', (30, 40))] []
      = run_all ?w [''b.gcda''] [(''src/foo.c'', (30, 40))] ([] @ [FailedToRunGcov ''a.gcda''])"
    by (rule failed_annotator_call_is_skipped [THEN conjunct1, THEN mp, OF a])
  also have "\<dots> = run_all ?w [] [(''src/foo.c'', (30, 40))]
      (([] @ [FailedToRunGcov ''a.gcda'']) @ [FailedToRunGcov ''b.gcda''])"
    by (rule failed_annotator_call_is_skipped [THEN conjunct1, THEN mp, OF b])
  finally show ?thesis by simp
qed

section \<open>Worked inputs of the line scanner\<close>

text \<open>
  Three annotator outputs for \<open>src/foo.c\<close>, each evaluated step by step: the percentage
  text is rounded to a float, multiplied by the line count, divided by 100 and truncated.
\<close>

lemma scan_file_line:
  "scan_line n (tbl, cur) (''File '' @ [quote] @ ''src/foo.c'' @ [quote]) = Inr (tbl, Some ''src/foo.c'')"
  by (simp add: scan_line_def file_pattern_match_def quote_def)

lemma ex_18_40_of_375_percent:
  "round_magnitude (of_int 1840 / of_int 100) = Some (2589569785738035 / 140737488355328)"
  by (subst round_magnitude_frac [of 100 4 1840]) simp_all

lemma ex_18_40_of_375_py_float:
  "py_float ''18'' ''40'' = Finite False (2589569785738035 / 140737488355328)"
  using ex_18_40_of_375_percent by (simp add: py_float_def decimal_value_def nat_of_digits_def digit_value_def)

lemma ex_18_40_of_375_scaled:
  "round_magnitude (of_int 971088669651763125 / of_int 140737488355328) = Some (7586630231654399 / 1099511627776)"
  by (subst round_magnitude_frac [of 140737488355328 12 971088669651763125]) simp_all

lemma ex_18_40_of_375_ratio:
  "round_magnitude (of_int 7586630231654399 / of_int 109951162777600) = Some (4855443348258815 / 70368744177664)"
  by (subst round_magnitude_frac [of 109951162777600 6 7586630231654399]) simp_all

lemma ex_18_40_of_375_covered_count:
  "covered_count 4300 ''18'' ''40'' ''375'' = Inr (68, 375)"
  using ex_18_40_of_375_scaled ex_18_40_of_375_ratio
  by (simp add: covered_count_def ex_18_40_of_375_py_float py_int_def nat_of_digits_def digit_value_def
      int_mul_float_def float_truediv_int_def float_of_int_exact floor_rat_numeral)

lemma ex_18_40_of_375_search:
  "coverage_pattern_search ''Lines executed:18.40% of 375'' = Some (''18'', ''40'', ''375'')"
  by (simp add: coverage_pattern_here_def is_digit_def)

lemma ex_18_40_of_375_file_match:
  "file_pattern_match ''Lines executed:18.40% of 375'' = None"
  by (simp add: file_pattern_match_def quote_def)

lemma ex_18_40_of_375_split:
  "split_lines (''File '' @ [quote] @ ''src/foo.c'' @ [quote] @ [CHR 0x0A] @ ''Lines executed:18.40% of 375'')
   = [''File '' @ [quote] @ ''src/foo.c'' @ [quote], ''Lines executed:18.40% of 375'']"
  by (simp add: quote_def)

lemma ex_18_40_of_375_scan:
  "scan_line 4300 (tbl, Some ''src/foo.c'') ''Lines executed:18.40% of 375''
   = Inr (store_coverage tbl ''src/foo.c'' (68, 375), None)"
  by (simp only: scan_line_def ex_18_40_of_375_file_match ex_18_40_of_375_search)
     (simp add: truthy_def ex_18_40_of_375_covered_count)

lemma ex_18_40_of_375_parse:
  "parse_output 4300 []
     (''File '' @ [quote] @ ''src/foo.c'' @ [quote] @ [CHR 0x0A] @ ''Lines executed:18.40% of 375'')
   = Inr [(''src/foo.c'', (68, 375))]"
  by (simp only: parse_output_def ex_18_40_of_375_split scan_lines.simps scan_file_line)
     (simp add: ex_18_40_of_375_scan store_coverage_def)

lemma ex_75_00_of_40_percent:
  "round_magnitude (of_int 7500 / of_int 100) = Some (75)"
  by (subst round_magnitude_frac [of 100 6 7500]) simp_all

lemma ex_75_00_of_40_py_float:
  "py_float ''75'' ''00'' = Finite False (75)"
  using ex_75_00_of_40_percent by (simp add: py_float_def decimal_value_def nat_of_digits_def digit_value_def)

lemma ex_75_00_of_40_scaled:
  "round_magnitude (of_int 3000 / of_int 1) = Some (3000)"
  by (subst round_magnitude_frac [of 1 11 3000]) simp_all

lemma ex_75_00_of_40_ratio:
  "round_magnitude (of_int 30 / of_int 1) = Some (30)"
  by (subst round_magnitude_frac [of 1 4 30]) simp_all

lemma ex_75_00_of_40_covered_count:
  "covered_count 4300 ''75'' ''00'' ''40'' = Inr (30, 40)"
  using ex_75_00_of_40_scaled ex_75_00_of_40_ratio
  by (simp add: covered_count_def ex_75_00_of_40_py_float py_int_def nat_of_digits_def digit_value_def
      int_mul_float_def float_truediv_int_def float_of_int_exact floor_rat_numeral)

lemma ex_75_00_of_40_search:
  "coverage_pattern_search ''Lines executed:75.00% of 40'' = Some (''75'', ''00'', ''40'')"
  by (simp add: coverage_pattern_here_def is_digit_def)

lemma ex_75_00_of_40_file_match:
  "file_pattern_match ''Lines executed:75.00% of 40'' = None"
  by (simp add: file_pattern_match_def quote_def)

lemma ex_75_00_of_40_split:
  "split_lines (''File '' @ [quote] @ ''src/foo.c'' @ [quote] @ [CHR 0x0A] @ ''Lines executed:75.00% of 40'')
   = [''File '' @ [quote] @ ''src/foo.c'' @ [quote], ''Lines executed:75.00% of 40'']"
  by (simp add: quote_def)

lemma ex_75_00_of_40_scan:
  "scan_line 4300 (tbl, Some ''src/foo.c'') ''Lines executed:75.00% of 40''
   = Inr (store_coverage tbl ''src/foo.c'' (30, 40), None)"
  by (simp only: scan_line_def ex_75_00_of_40_file_match ex_75_00_of_40_search)
     (simp add: truthy_def ex_75_00_of_40_covered_count)

lemma ex_75_00_of_40_parse:
  "parse_output 4300 []
     (''File '' @ [quote] @ ''src/foo.c'' @ [quote] @ [CHR 0x0A] @ ''Lines executed:75.00% of 40'')
   = Inr [(''src/foo.c'', (30, 40))]"
  by (simp only: parse_output_def ex_75_00_of_40_split scan_lines.simps scan_file_line)
     (simp add: ex_75_00_of_40_scan store_coverage_def)

lemma ex_150_00_of_40_percent:
  "round_magnitude (of_int 15000 / of_int 100) = Some (150)"
  by (subst round_magnitude_frac [of 100 7 15000]) simp_all

lemma ex_150_00_of_40_py_float:
  "py_float ''150'' ''00'' = Finite False (150)"
  using ex_150_00_of_40_percent by (simp add: py_float_def decimal_value_def nat_of_digits_def digit_value_def)

lemma ex_150_00_of_40_scaled:
  "round_magnitude (of_int 6000 / of_int 1) = Some (6000)"
  by (subst round_magnitude_frac [of 1 12 6000]) simp_all

lemma ex_150_00_of_40_ratio:
  "round_magnitude (of_int 60 / of_int 1) = Some (60)"
  by (subst round_magnitude_frac [of 1 5 60]) simp_all

lemma ex_150_00_of_40_covered_count:
  "covered_count 4300 ''150'' ''00'' ''40'' = Inr (60, 40)"
  using ex_150_00_of_40_scaled ex_150_00_of_40_ratio
  by (simp add: covered_count_def ex_150_00_of_40_py_float py_int_def nat_of_digits_def digit_value_def
      int_mul_float_def float_truediv_int_def float_of_int_exact floor_rat_numeral)

lemma ex_150_00_of_40_search:
  "coverage_pattern_search ''Lines executed:150.00% of 40'' = Some (''150'', ''00'', ''40'')"
  by (simp add: coverage_pattern_here_def is_digit_def)

lemma ex_150_00_of_40_file_match:
  "file_pattern_match ''Lines executed:150.00% of 40'' = None"
  by (simp add: file_pattern_match_def quote_def)

lemma ex_150_00_of_40_split:
  "split_lines (''File '' @ [quote] @ ''src/foo.c'' @ [quote] @ [CHR 0x0A] @ ''Lines executed:150.00% of 40'')
   = [''File '' @ [quote] @ ''src/foo.c'' @ [quote], ''Lines executed:150.00% of 40'']"
  by (simp add: quote_def)

lemma ex_150_00_of_40_scan:
  "scan_line 4300 (tbl, Some ''src/foo.c'') ''Lines executed:150.00% of 40''
   = Inr (store_coverage tbl ''src/foo.c'' (60, 40), None)"
  by (simp only: scan_line_def ex_150_00_of_40_file_match ex_150_00_of_40_search)
     (simp add: truthy_def ex_150_00_of_40_covered_count)

lemma ex_150_00_of_40_parse:
  "parse_output 4300 []
     (''File '' @ [quote] @ ''src/foo.c'' @ [quote] @ [CHR 0x0A] @ ''Lines executed:150.00% of 40'')
   = Inr [(''src/foo.c'', (60, 40))]"
  by (simp only: parse_output_def ex_150_00_of_40_split scan_lines.simps scan_file_line)
     (simp add: ex_150_00_of_40_scan store_coverage_def)

section \<open>Properties of the covered count\<close>

text \<open>
  C5: The claim is that the recorded covered count is the exact floor of
  \<open>total * percent / 100\<close>. The script computes \<open>int(total * percent / 100)\<close> in floats.
  For the output \<open>File 'src/foo.c'\<close>, \<open>Lines executed:18.40% of 375\<close> the recorded entry
  is \<open>(68, 375)\<close>, while the percentage text denotes \<open>1840 / 100\<close> and the exact floor of
  \<open>375 * 18.40 / 100\<close> is 69. The example of the specification, \<open>75.00% of 40\<close>, does give
  \<open>(30, 40)\<close>.
\<close>

theorem covered_count_truncates_rounded_product:
  "parse_output 4300 []
     (''File '' @ [quote] @ ''src/foo.c'' @ [quote] @ [CHR 0x0A] @ ''Lines executed:18.40% of 375'')
   = Inr [(''src/foo.c'', (68, 375))]
   \<and> decimal_value ''18'' ''40'' = 1840 / 100
   \<and> \<lfloor>(375::rat) * (1840 / 100) / 100\<rfloor> = 69
   \<and> parse_output 4300 []
     (''File '' @ [quote] @ ''src/foo.c'' @ [quote] @ [CHR 0x0A] @ ''Lines executed:75.00% of 40'')
   = Inr [(''src/foo.c'', (30, 40))]"
proof (intro conjI)
  show "parse_output 4300 []
     (''File '' @ [quote] @ ''src/foo.c'' @ [quote] @ [CHR 0x0A] @ ''Lines executed:18.40% of 375'')
   = Inr [(''src/foo.c'', (68, 375))]"
    by (rule ex_18_40_of_375_parse)
  show "decimal_value ''18'' ''40'' = 1840 / 100"
    by (simp add: decimal_value_def nat_of_digits_def digit_value_def)
  show "\<lfloor>(375::rat) * (1840 / 100) / 100\<rfloor> = 69"
    by simp
  show "parse_output 4300 []
     (''File '' @ [quote] @ ''src/foo.c'' @ [quote] @ [CHR 0x0A] @ ''Lines executed:75.00% of 40'')
   = Inr [(''src/foo.c'', (30, 40))]"
    by (rule ex_75_00_of_40_parse)
qed

section \<open>Properties of the stored entries\<close>

lemma round_magnitude_eq_Some:
  "round_magnitude x = Some r \<Longrightarrow> r = round_nearest x"
  by (simp add: round_magnitude_def Let_def split: if_splits)

lemma round_magnitude_nonneg:
  "0 \<le> x \<Longrightarrow> round_magnitude x = Some r \<Longrightarrow> 0 \<le> r"
  using round_magnitude_eq_Some [of x r] round_nearest_nonneg [of x] by simp

lemma decimal_value_nonneg: "0 \<le> decimal_value ip fp"
  by (simp add: decimal_value_def)

lemma nonnegative_py_float: "nonnegative (py_float ip fp)"
  using round_magnitude_nonneg [OF decimal_value_nonneg]
  by (auto simp add: py_float_def split: option.splits)

lemma nonnegative_float_of_int:
  "0 \<le> n \<Longrightarrow> float_of_int n = Inr f \<Longrightarrow> nonnegative f"
  using round_magnitude_nonneg [of "\<bar>of_int n\<bar>"]
  by (auto simp add: float_of_int_def split: option.splits)

lemma nonnegative_float_mul:
  "nonnegative a \<Longrightarrow> nonnegative b \<Longrightarrow> nonnegative (float_mul a b)"
proof (induction a b rule: float_mul.induct)
  case (3 s a t b)
  then have "0 \<le> a * b" by simp
  from round_magnitude_nonneg [OF this] 3 show ?case
    by (auto split: option.splits)
qed auto

lemma nonnegative_float_truediv:
  "nonnegative a \<Longrightarrow> nonnegative b \<Longrightarrow> float_truediv a b = Inr c \<Longrightarrow> nonnegative c"
proof (induction a b rule: float_truediv.induct)
  case (5 s a t b)
  then have "0 \<le> a / b" by simp
  from round_magnitude_nonneg [OF this] 5 show ?case
    by (auto split: option.splits if_splits)
qed (auto split: if_splits)

lemma nonnegative_int_of_float:
  "nonnegative a \<Longrightarrow> int_of_float a = Inr c \<Longrightarrow> 0 \<le> c"
  by (cases a) auto

lemma float_of_int_100: "float_of_int 100 = Inr (Finite False 100)"
  using float_of_int_exact [of 100] by simp

lemma covered_count_nonneg:
  assumes "covered_count md ip fp td = Inr (c, t)"
  shows "0 \<le> c \<and> 0 \<le> t"
proof -
  from assms obtain scaled ratio where
    t: "py_int md td = Inr t"
    and s: "int_mul_float t (py_float ip fp) = Inr scaled"
    and r: "float_truediv_int scaled 100 = Inr ratio"
    and c: "int_of_float ratio = Inr c"
    by (auto simp add: covered_count_def Let_def split: sum.splits)
  from t have t0: "0 \<le> t" by (auto simp add: py_int_def split: if_splits)
  from s obtain ft where ft: "float_of_int t = Inr ft" and sc: "scaled = float_mul ft (py_float ip fp)"
    by (auto simp add: int_mul_float_def split: sum.splits)
  have ns: "nonnegative scaled"
    unfolding sc by (intro nonnegative_float_mul nonnegative_float_of_int [OF t0 ft] nonnegative_py_float)
  from r have "float_truediv scaled (Finite False 100) = Inr ratio"
    by (simp add: float_truediv_int_def float_of_int_100)
  with ns have "nonnegative ratio"
    using nonnegative_float_truediv [of scaled "Finite False 100" ratio] by simp
  from nonnegative_int_of_float [OF this c] t0 show ?thesis by simp
qed

lemma round_magnitude_le:
  assumes "0 \<le> x" "x \<le> of_int m" "m \<le> 2 ^ 53"
  shows "\<exists>r. round_magnitude x = Some r \<and> 0 \<le> r \<and> r \<le> of_int m"
proof -
  have m0: "0 \<le> m" using assms(1,2) by (simp add: of_int_0_le_iff [symmetric, where ?'a = rat] del: of_int_0_le_iff)
  have "(of_int m :: rat) \<le> of_int (2 ^ 53)" using assms(3) by (simp only: of_int_le_iff)
  also have "\<dots> = 2 powi 53" by simp
  also have "\<dots> \<le> 2 powi 1023" by (rule two_powi_mono) simp
  finally have "x \<le> 2 powi 1023" using assms(2) by simp
  with assms(1) have s: "round_magnitude x = Some (round_nearest x)" by (rule round_magnitude_Some)
  have "round_nearest x \<le> round_nearest (of_int m)" using assms(1,2) by (rule round_nearest_mono)
  also have "\<dots> = of_int m" using m0 assms(3) by (rule round_nearest_of_int)
  finally show ?thesis using s round_nearest_nonneg [OF assms(1)] by simp
qed

lemma covered_count_le_total:
  assumes cc: "covered_count md ip fp td = Inr (c, t)"
    and p: "decimal_value ip fp \<le> 100"
    and n: "nat_of_digits td \<le> 2 ^ 46"
  shows "c \<le> t"
proof -
  have t: "t = int (nat_of_digits td)"
    using cc by (auto simp add: covered_count_def Let_def py_int_def split: sum.splits if_splits)
  have t0: "0 \<le> t" and t46: "t \<le> 2 ^ 46"
    using n by (simp_all add: t)
  have t53: "t \<le> 2 ^ 53" using t46 by simp
  have "decimal_value ip fp \<le> of_int 100" using p by simp
  from round_magnitude_le [OF decimal_value_nonneg this]
  obtain q where q: "round_magnitude (decimal_value ip fp) = Some q" "0 \<le> q" "q \<le> 100"
    by auto
  have pf: "py_float ip fp = Finite False q" by (simp add: py_float_def q(1))
  have ft: "float_of_int t = Inr (Finite False (of_int t))"
    using t0 t53 by (rule float_of_int_exact)
  have tq0: "0 \<le> of_int t * q" using t0 q(2) by simp
  have "of_int t * q \<le> of_int t * 100"
    using t0 q(3) by (intro mult_left_mono) simp_all
  then have tq: "of_int t * q \<le> of_int (t * 100)" by simp
  have "t * 100 \<le> 2 ^ 53" using t46 by simp
  from round_magnitude_le [OF tq0 tq this]
  obtain y where y: "round_magnitude (of_int t * q) = Some y" "0 \<le> y" "y \<le> of_int (t * 100)"
    by auto
  have sc: "int_mul_float t (py_float ip fp) = Inr (Finite False y)"
    by (simp add: int_mul_float_def ft pf y(1))
  have y0: "0 \<le> y / 100" using y(2) by simp
  have "y / 100 \<le> of_int t" using y(3) by simp
  from round_magnitude_le [OF y0 this t53]
  obtain z where z: "round_magnitude (y / 100) = Some z" "0 \<le> z" "z \<le> of_int t"
    by auto
  have ra: "float_truediv_int (Finite False y) 100 = Inr (Finite False z)"
    by (simp add: float_truediv_int_def float_of_int_100 z(1))
  have "py_int md td = Inr t"
    using cc by (auto simp add: covered_count_def Let_def split: sum.splits)
  with cc have "c = \<lfloor>z\<rfloor>"
    by (simp add: covered_count_def Let_def sc ra)
  moreover have "\<lfloor>z\<rfloor> \<le> t" using z(3) by (simp add: floor_le_iff)
  ultimately show ?thesis by simp
qed

lemma update_set:
  "x \<in> set (AList.update k v al) \<Longrightarrow> x \<in> set al \<or> x = (k, v)"
  by (induction al) (auto split: if_splits)

lemma store_coverage_set:
  "x \<in> set (store_coverage tbl f e) \<Longrightarrow> x \<in> set tbl \<or> x = (f, e)"
  by (auto simp add: store_coverage_def dest: update_set split: option.splits if_splits)

lemma scan_line_invariant:
  assumes "scan_line md (tbl, cur) line = Inr (tbl', cur')"
    and "\<forall>x \<in> set tbl. P (snd x)"
    and "\<And>ip fp td e. coverage_pattern_search line = Some (ip, fp, td) \<Longrightarrow>
           covered_count md ip fp td = Inr e \<Longrightarrow> P e"
  shows "\<forall>x \<in> set tbl'. P (snd x)"
proof (cases "file_pattern_match line")
  case (Some name)
  with assms(1,2) show ?thesis by (simp add: scan_line_def)
next
  case None
  show ?thesis
  proof (cases "coverage_pattern_search line")
    case n: None
    with None assms(1,2) show ?thesis by (simp add: scan_line_def)
  next
    case (Some g)
    obtain ip fp td where g: "g = (ip, fp, td)" by (cases g) auto
    show ?thesis
    proof (cases "truthy cur")
      case False
      with None Some g assms(1,2) show ?thesis by (simp add: scan_line_def)
    next
      case True
      with None Some g assms(1) obtain e where
        e: "covered_count md ip fp td = Inr e"
        and t: "tbl' = store_coverage tbl (the cur) e"
        by (auto simp add: scan_line_def split: sum.splits)
      from assms(3) [OF Some [unfolded g] e] have "P e" .
      with assms(2) show ?thesis
        unfolding t by (auto dest: store_coverage_set)
    qed
  qed
qed

lemma scan_lines_invariant:
  assumes "scan_lines md (tbl, cur) lines = Inr (tbl', cur')"
    and "\<forall>x \<in> set tbl. P (snd x)"
    and "\<And>line ip fp td e. line \<in> set lines \<Longrightarrow>
           coverage_pattern_search line = Some (ip, fp, td) \<Longrightarrow>
           covered_count md ip fp td = Inr e \<Longrightarrow> P e"
  shows "\<forall>x \<in> set tbl'. P (snd x)"
  using assms
proof (induction lines arbitrary: tbl cur)
  case Nil
  then show ?case by simp
next
  case (Cons line rest)
  from Cons.prems(1) obtain tbl1 cur1 where
    s1: "scan_line md (tbl, cur) line = Inr (tbl1, cur1)"
    and s2: "scan_lines md (tbl1, cur1) rest = Inr (tbl', cur')"
    by (auto split: sum.splits)
  have "\<forall>x \<in> set tbl1. P (snd x)"
    using s1 Cons.prems(2)
  proof (rule scan_line_invariant)
    fix ip fp td e
    assume "coverage_pattern_search line = Some (ip, fp, td)" "covered_count md ip fp td = Inr e"
    then show "P e" using Cons.prems(3) [of line ip fp td e] by simp
  qed
  with s2 show ?case
  proof (rule Cons.IH)
    fix l ip fp td e
    assume "l \<in> set rest" "coverage_pattern_search l = Some (ip, fp, td)"
      "covered_count md ip fp td = Inr e"
    then show "P e" using Cons.prems(3) [of l ip fp td e] by simp
  qed
qed

lemma parse_output_invariant:
  assumes "parse_output md tbl output = Inr tbl'"
    and "\<forall>x \<in> set tbl. P (snd x)"
    and "\<And>line ip fp td e. line \<in> set (split_lines output) \<Longrightarrow>
           coverage_pattern_search line = Some (ip, fp, td) \<Longrightarrow>
           covered_count md ip fp td = Inr e \<Longrightarrow> P e"
  shows "\<forall>x \<in> set tbl'. P (snd x)"
proof -
  from assms(1) obtain cur' where
    "scan_lines md (tbl, None) (split_lines output) = Inr (tbl', cur')"
    by (auto simp add: parse_output_def split: sum.splits)
  then show ?thesis using assms(2,3) by (rule scan_lines_invariant)
qed

lemma run_all_invariant:
  assumes "run_all w gs tbl printed = (printed', Inr tbl')"
    and "\<forall>x \<in> set tbl. P (snd x)"
    and "\<And>g out err line ip fp td e. g \<in> set gs \<Longrightarrow> run_gcov w g = Completed out err \<Longrightarrow>
           line \<in> set (split_lines (out @ err)) \<Longrightarrow>
           coverage_pattern_search line = Some (ip, fp, td) \<Longrightarrow>
           covered_count (int_max_str_digits w) ip fp td = Inr e \<Longrightarrow> P e"
  shows "\<forall>x \<in> set tbl'. P (snd x)"
  using assms
proof (induction gs arbitrary: tbl printed)
  case Nil
  then show ?case by simp
next
  case (Cons g rest)
  have later: "\<And>g' out err line ip fp td e. g' \<in> set rest \<Longrightarrow> run_gcov w g' = Completed out err \<Longrightarrow>
           line \<in> set (split_lines (out @ err)) \<Longrightarrow>
           coverage_pattern_search line = Some (ip, fp, td) \<Longrightarrow>
           covered_count (int_max_str_digits w) ip fp td = Inr e \<Longrightarrow> P e"
    using Cons.prems(3) by (meson list.set_intros(2))
  show ?case
  proof (cases "run_gcov w g")
    case (Completed out err)
    with Cons.prems(1) obtain tbl1 where
      p: "parse_output (int_max_str_digits w) tbl (out @ err) = Inr tbl1"
      and r: "run_all w rest tbl1 printed = (printed', Inr tbl')"
      by (auto split: sum.splits)
    have "\<forall>x \<in> set tbl1. P (snd x)"
      using p Cons.prems(2)
    proof (rule parse_output_invariant)
      fix line ip fp td e
      assume "line \<in> set (split_lines (out @ err))"
        "coverage_pattern_search line = Some (ip, fp, td)"
        "covered_count (int_max_str_digits w) ip fp td = Inr e"
      then show "P e" using Cons.prems(3) [of g out err line ip fp td e] Completed by simp
    qed
    with r show ?thesis using later by (rule Cons.IH)
  next
    case TimeoutExpired
    with Cons.prems(1) have "run_all w rest tbl (printed @ [FailedToRunGcov g]) = (printed', Inr tbl')"
      by simp
    then show ?thesis using Cons.prems(2) later by (rule Cons.IH)
  next
    case FileNotFoundError
    with Cons.prems(1) have "run_all w rest tbl (printed @ [FailedToRunGcov g]) = (printed', Inr tbl')"
      by simp
    then show ?thesis using Cons.prems(2) later by (rule Cons.IH)
  next
    case (RunRaised e)
    with Cons.prems(1) show ?thesis by simp
  qed
qed

lemma ex_file_line_search:
  "coverage_pattern_search (''File '' @ [quote] @ ''src/foo.c'' @ [quote]) = None"
  by (simp add: coverage_pattern_here_def quote_def)

lemma ex_file_line_within_range:
  "within_range (''File '' @ [quote] @ ''src/foo.c'' @ [quote])"
  by (simp only: within_range_def ex_file_line_search) simp

lemma ex_75_00_of_40_within_range:
  "within_range ''Lines executed:75.00% of 40''"
  by (simp only: within_range_def ex_75_00_of_40_search)
     (simp add: decimal_value_def nat_of_digits_def digit_value_def)

text \<open>
  C4, as amended: Every entry the gcov parser stores has a covered count and a total that
  are not negative. The covered count is at most the total when every coverage line of
  every annotator output has a percentage of at most 100 and a line count of at most
  \<open>2^46\<close>. The parser does not check the percentage, so nothing bounds the covered count for
  percentages above 100.
\<close>

theorem stored_entries_bounds:
  assumes "run_all w gcda_files [] printed = (printed', Inr file_coverage)"
  shows "(\<forall>(name, cov, tot) \<in> set file_coverage. 0 \<le> cov \<and> 0 \<le> tot)
    \<and> ((\<forall>g \<in> set gcda_files. \<forall>out err. run_gcov w g = Completed out err \<longrightarrow>
           (\<forall>line \<in> set (split_lines (out @ err)). within_range line))
        \<longrightarrow> (\<forall>(name, cov, tot) \<in> set file_coverage. cov \<le> tot))"
proof (rule conjI)
  have "\<forall>x \<in> set file_coverage. (\<lambda>(cov, tot). 0 \<le> cov \<and> 0 \<le> tot) (snd x)"
    using assms
  proof (rule run_all_invariant)
    show "\<forall>x \<in> set []. (\<lambda>(cov, tot). 0 \<le> cov \<and> 0 \<le> tot) (snd x)" by simp
  next
    fix ip fp td e
    assume "covered_count (int_max_str_digits w) ip fp td = Inr e"
    then show "(\<lambda>(cov, tot). 0 \<le> cov \<and> 0 \<le> tot) e"
      using covered_count_nonneg [of "int_max_str_digits w" ip fp td "fst e" "snd e"] by (cases e) simp
  qed
  then show "\<forall>(name, cov, tot) \<in> set file_coverage. 0 \<le> cov \<and> 0 \<le> tot"
    by (auto simp add: case_prod_unfold)
next
  show "(\<forall>g \<in> set gcda_files. \<forall>out err. run_gcov w g = Completed out err \<longrightarrow>
           (\<forall>line \<in> set (split_lines (out @ err)). within_range line))
        \<longrightarrow> (\<forall>(name, cov, tot) \<in> set file_coverage. cov \<le> tot)"
  proof (rule impI)
    assume range: "\<forall>g \<in> set gcda_files. \<forall>out err. run_gcov w g = Completed out err \<longrightarrow>
           (\<forall>line \<in> set (split_lines (out @ err)). within_range line)"
    have "\<forall>x \<in> set file_coverage. (\<lambda>(cov, tot). cov \<le> tot) (snd x)"
      using assms
    proof (rule run_all_invariant)
      show "\<forall>x \<in> set []. (\<lambda>(cov, tot). cov \<le> tot) (snd x)" by simp
    next
      fix g out err line ip fp td e
      assume g: "g \<in> set gcda_files" "run_gcov w g = Completed out err"
        and l: "line \<in> set (split_lines (out @ err))"
        and s: "coverage_pattern_search line = Some (ip, fp, td)"
        and c: "covered_count (int_max_str_digits w) ip fp td = Inr e"
      from range g l have "within_range line" by simp
      with s have "decimal_value ip fp \<le> 100" "nat_of_digits td \<le> 2 ^ 46"
        by (simp_all add: within_range_def)
      with c show "(\<lambda>(cov, tot). cov \<le> tot) e"
        using covered_count_le_total [of "int_max_str_digits w" ip fp td "fst e" "snd e"]
        by (cases e) simp
    qed
    then show "\<forall>(name, cov, tot) \<in> set file_coverage. cov \<le> tot"
      by (auto simp add: case_prod_unfold)
  qed
qed

theorem stored_entries_bounds_witness:
  "run_all \<lparr>load_json = (\<lambda>p. FileNotFound []), rglob_gcda = (\<lambda>d. [''a.gcda'']),
            run_gcov = (\<lambda>g. Completed (''File '' @ [quote] @ ''src/foo.c'' @ [quote] @ [CHR 0x0A]
                                         @ ''Lines executed:75.00% of 40'') []),
            int_max_str_digits = 4300\<rparr>
     [''a.gcda''] [] []
   = ([], Inr [(''src/foo.c'', (30, 40))])
   \<and> (0::int) \<le> 30 \<and> (30::int) \<le> 40"
proof -
  let ?text = "''File '' @ [quote] @ ''src/foo.c'' @ [quote] @ [CHR 0x0A] @ ''Lines executed:75.00% of 40''"
  let ?w = "\<lparr>load_json = (\<lambda>p. FileNotFound []), rglob_gcda = (\<lambda>d. [''a.gcda'']),
            run_gcov = (\<lambda>g. Completed ?text []), int_max_str_digits = 4300\<rparr>"
  have run: "run_all ?w [''a.gcda''] [] [] = ([], Inr [(''src/foo.c'', (30, 40))])"
    by (simp only: run_all.simps world.simps run_result.simps append_Nil2 ex_75_00_of_40_parse
        sum.simps)
  have lines: "\<forall>line \<in> set (split_lines (?text @ [])). within_range line"
    by (simp only: append_Nil2 ex_75_00_of_40_split)
       (simp only: list.set ball_simps ex_file_line_within_range
          ex_75_00_of_40_within_range simp_thms)
  have range: "\<forall>g \<in> set [''a.gcda'']. \<forall>out err. run_gcov ?w g = Completed out err \<longrightarrow>
           (\<forall>line \<in> set (split_lines (out @ err)). within_range line)"
    using lines by (simp del: append.simps split_lines.simps)
  have "\<forall>(name, cov, tot) \<in> set [(''src/foo.c'', (30::int, 40::int))]. 0 \<le> cov \<and> 0 \<le> tot"
    by (rule stored_entries_bounds [OF run, THEN conjunct1])
  moreover have "\<forall>(name, cov, tot) \<in> set [(''src/foo.c'', (30::int, 40::int))]. cov \<le> tot"
    by (rule stored_entries_bounds [OF run, THEN conjunct2, THEN mp, OF range])
  ultimately have "(0::int) \<le> 30 \<and> (30::int) \<le> 40" by simp
  with run show ?thesis by (simp only: simp_thms)
qed

text \<open>
  C4, as stated, fails: the pattern accepts \<open>150.00%\<close>, and the output \<open>File 'src/foo.c'\<close>,
  \<open>Lines executed:150.00% of 40\<close> stores the entry \<open>(60, 40)\<close>.
\<close>

theorem percentage_above_100_counterexample:
  "parse_output 4300 []
     (''File '' @ [quote] @ ''src/foo.c'' @ [quote] @ [CHR 0x0A] @ ''Lines executed:150.00% of 40'')
   = Inr [(''src/foo.c'', (60, 40))]
   \<and> \<not> ((60::int) \<le> 40)"
  by (rule conjI, rule ex_150_00_of_40_parse) simp

section \<open>Properties of the line scanner\<close>


















section \<open>Worked percentages\<close>

text \<open>
  \<open>(covered_lines / total_lines) * 100\<close> for three pairs of sums, each evaluated step by step:
  the quotient is rounded to a float, multiplied by 100 and rounded again.
\<close>

lemma ex_7_of_25_quotient:
  "round_magnitude (of_int 7 / of_int 25) = Some (1261007895663739 / 4503599627370496)"
  by (subst round_magnitude_frac [of 25 "- 2" 7]) simp_all

lemma ex_7_of_25_times_100:
  "round_magnitude (of_int 31525197391593475 / of_int 1125899906842624) = Some (7881299347898369 / 281474976710656)"
  by (subst round_magnitude_frac [of 1125899906842624 4 31525197391593475]) simp_all

lemma ex_7_of_25_percentage:
  "percentage 7 25 = Inr (Finite False (7881299347898369 / 281474976710656))"
  using ex_7_of_25_quotient ex_7_of_25_times_100
  by (simp add: percentage_def int_truediv_def float_mul_int_def float_of_int_exact)

lemma ex_80_of_100_quotient:
  "round_magnitude (of_int 80 / of_int 100) = Some (3602879701896397 / 4503599627370496)"
  by (subst round_magnitude_frac [of 100 "- 1" 80]) simp_all

lemma ex_80_of_100_times_100:
  "round_magnitude (of_int 90071992547409925 / of_int 1125899906842624) = Some (80)"
  by (subst round_magnitude_frac [of 1125899906842624 6 90071992547409925]) simp_all

lemma ex_80_of_100_percentage:
  "percentage 80 100 = Inr (Finite False (80))"
  using ex_80_of_100_quotient ex_80_of_100_times_100
  by (simp add: percentage_def int_truediv_def float_mul_int_def float_of_int_exact)

lemma ex_90_of_150_quotient:
  "round_magnitude (of_int 90 / of_int 150) = Some (5404319552844595 / 9007199254740992)"
  by (subst round_magnitude_frac [of 150 "- 1" 90]) simp_all

lemma ex_90_of_150_times_100:
  "round_magnitude (of_int 135107988821114875 / of_int 2251799813685248) = Some (60)"
  by (subst round_magnitude_frac [of 2251799813685248 5 135107988821114875]) simp_all

lemma ex_90_of_150_percentage:
  "percentage 90 150 = Inr (Finite False (60))"
  using ex_90_of_150_quotient ex_90_of_150_times_100
  by (simp add: percentage_def int_truediv_def float_mul_int_def float_of_int_exact)

lemma format_1f_80: "format_1f (Finite False 80) = ''80.0''"
  by code_simp

section \<open>Properties of the dispatch\<close>

lemma main_Parsed:
  "parse_args argv = Parsed args \<Longrightarrow>
   main parse_args w argv =
     (case dispatch w args of
        (printed, Inr (Some coverage)) \<Rightarrow>
          \<lparr>stdout = [format_1f coverage], stderr = printed, exit_status = 0\<rparr>
      | (printed, Inr None) \<Rightarrow> \<lparr>stdout = [], stderr = printed, exit_status = 1\<rparr>
      | (printed, Inl e) \<Rightarrow> \<lparr>stdout = [], stderr = printed @ [Traceback e], exit_status = 1\<rparr>)"
  by (simp add: main_def)

lemma main_ParserExit:
  "parse_args argv = ParserExit status out err \<Longrightarrow>
   main parse_args w argv = \<lparr>stdout = out, stderr = err, exit_status = status\<rparr>"
  by (simp add: main_def)

lemma main_result:
  assumes "parse_args argv = Parsed args"
  shows "(case snd (dispatch w args) of
      Inr (Some coverage) \<Rightarrow>
        exit_status (main parse_args w argv) = 0
        \<and> stdout (main parse_args w argv) = [format_1f coverage]
    | Inr None \<Rightarrow>
        exit_status (main parse_args w argv) = 1 \<and> stdout (main parse_args w argv) = []
    | Inl e \<Rightarrow>
        exit_status (main parse_args w argv) = 1 \<and> stdout (main parse_args w argv) = [])"
  by (cases "dispatch w args")
     (auto simp add: main_Parsed [of parse_args argv args, OF assms] split: sum.splits option.splits)

lemma main_stderr:
  assumes "parse_args argv = Parsed args"
  shows "\<exists>more. stderr (main parse_args w argv) = fst (dispatch w args) @ more"
  by (cases "dispatch w args")
     (auto simp add: main_Parsed [of parse_args argv args, OF assms] split: sum.splits option.splits)

text \<open>
  C8, as amended: When \<open>parse_args\<close> returns a namespace, the process ends with exit status 0
  and exactly one line on standard output, the percentage in the format \<open>.1f\<close>, iff the
  extractor returned a value; when the extractor returned \<open>None\<close> or an exception left it,
  the exit status is 1 and nothing is on standard output; what the extractor printed is on
  standard error. When \<open>parse_args\<close> ends the process itself, the exit status and the
  output are those of that exit and nothing else is printed.
\<close>

theorem exit_status_and_standard_output:
  "(parse_args argv = Parsed args \<longrightarrow>
      (\<forall>coverage. snd (dispatch w args) = Inr (Some coverage) \<longrightarrow>
         exit_status (main parse_args w argv) = 0
         \<and> stdout (main parse_args w argv) = [format_1f coverage])
      \<and> ((\<forall>coverage. snd (dispatch w args) \<noteq> Inr (Some coverage)) \<longrightarrow>
         exit_status (main parse_args w argv) = 1 \<and> stdout (main parse_args w argv) = [])
      \<and> (\<exists>more. stderr (main parse_args w argv) = fst (dispatch w args) @ more))
   \<and> (parse_args argv = ParserExit status out err \<longrightarrow>
        main parse_args w argv = \<lparr>stdout = out, stderr = err, exit_status = status\<rparr>)"
proof (rule conjI)
  show "parse_args argv = Parsed args \<longrightarrow>
      (\<forall>coverage. snd (dispatch w args) = Inr (Some coverage) \<longrightarrow>
         exit_status (main parse_args w argv) = 0
         \<and> stdout (main parse_args w argv) = [format_1f coverage])
      \<and> ((\<forall>coverage. snd (dispatch w args) \<noteq> Inr (Some coverage)) \<longrightarrow>
         exit_status (main parse_args w argv) = 1 \<and> stdout (main parse_args w argv) = [])
      \<and> (\<exists>more. stderr (main parse_args w argv) = fst (dispatch w args) @ more)"
  proof (rule impI)
    assume p: "parse_args argv = Parsed args"
    note r = main_result [of parse_args argv args w, OF p]
    have a: "\<forall>coverage. snd (dispatch w args) = Inr (Some coverage) \<longrightarrow>
         exit_status (main parse_args w argv) = 0
         \<and> stdout (main parse_args w argv) = [format_1f coverage]"
    proof (intro allI impI)
      fix coverage
      assume "snd (dispatch w args) = Inr (Some coverage)"
      with r show "exit_status (main parse_args w argv) = 0
         \<and> stdout (main parse_args w argv) = [format_1f coverage]"
        by simp
    qed
    have b: "(\<forall>coverage. snd (dispatch w args) \<noteq> Inr (Some coverage)) \<longrightarrow>
         exit_status (main parse_args w argv) = 1 \<and> stdout (main parse_args w argv) = []"
    proof (rule impI)
      assume none: "\<forall>coverage. snd (dispatch w args) \<noteq> Inr (Some coverage)"
      show "exit_status (main parse_args w argv) = 1 \<and> stdout (main parse_args w argv) = []"
      proof (cases "snd (dispatch w args)")
        case (Inl e)
        with r show ?thesis by simp
      next
        case (Inr v)
        with none have "v = None" by (cases v) simp_all
        with Inr r show ?thesis by simp
      qed
    qed
    have c: "\<exists>more. stderr (main parse_args w argv) = fst (dispatch w args) @ more"
      by (rule main_stderr [of parse_args argv args, OF p])
    show "(\<forall>coverage. snd (dispatch w args) = Inr (Some coverage) \<longrightarrow>
         exit_status (main parse_args w argv) = 0
         \<and> stdout (main parse_args w argv) = [format_1f coverage])
      \<and> ((\<forall>coverage. snd (dispatch w args) \<noteq> Inr (Some coverage)) \<longrightarrow>
         exit_status (main parse_args w argv) = 1 \<and> stdout (main parse_args w argv) = [])
      \<and> (\<exists>more. stderr (main parse_args w argv) = fst (dispatch w args) @ more)"
      by (rule conjI [OF a conjI [OF b c]])
  qed
next
  show "parse_args argv = ParserExit status out err \<longrightarrow>
        main parse_args w argv = \<lparr>stdout = out, stderr = err, exit_status = status\<rparr>"
    by (rule impI) (rule main_ParserExit [of parse_args argv status out err])
qed

theorem exit_status_and_standard_output_witness:
  "exit_status
     (main (\<lambda>argv. Parsed \<lparr>args_json = Some ''coverage_summary.json'', args_gcov_dir = None,
                              args_filters = Some [''src/'']\<rparr>)
        \<lparr>load_json = (\<lambda>p. Loaded \<lparr>files = Some
             [\<lparr>filename = Some ''src/a.c'', line_total = Some 100, line_covered = Some 80\<rparr>,
              \<lparr>filename = Some ''test/b.c'', line_total = Some 50, line_covered = Some 10\<rparr>]\<rparr>),
          rglob_gcda = (\<lambda>d. []), run_gcov = (\<lambda>g. FileNotFoundError), int_max_str_digits = 4300\<rparr>
        [''--json'', ''coverage_summary.json'', ''-f'', ''src/'']) = 0
   \<and> stdout
     (main (\<lambda>argv. Parsed \<lparr>args_json = Some ''coverage_summary.json'', args_gcov_dir = None,
                              args_filters = Some [''src/'']\<rparr>)
        \<lparr>load_json = (\<lambda>p. Loaded \<lparr>files = Some
             [\<lparr>filename = Some ''src/a.c'', line_total = Some 100, line_covered = Some 80\<rparr>,
              \<lparr>filename = Some ''test/b.c'', line_total = Some 50, line_covered = Some 10\<rparr>]\<rparr>),
          rglob_gcda = (\<lambda>d. []), run_gcov = (\<lambda>g. FileNotFoundError), int_max_str_digits = 4300\<rparr>
        [''--json'', ''coverage_summary.json'', ''-f'', ''src/'']) = [''80.0'']"
proof -
  let ?a = "\<lparr>args_json = Some ''coverage_summary.json'', args_gcov_dir = None,
             args_filters = Some [''src/'']\<rparr>"
  let ?P = "\<lambda>argv :: string list. Parsed ?a"
  let ?w = "\<lparr>load_json = (\<lambda>p. Loaded \<lparr>files = Some
             [\<lparr>filename = Some ''src/a.c'', line_total = Some 100, line_covered = Some 80\<rparr>,
              \<lparr>filename = Some ''test/b.c'', line_total = Some 50, line_covered = Some 10\<rparr>]\<rparr>),
          rglob_gcda = (\<lambda>d. []), run_gcov = (\<lambda>g. FileNotFoundError), int_max_str_digits = 4300\<rparr>"
  let ?argv = "[''--json'', ''coverage_summary.json'', ''-f'', ''src/'']"
  have d: "snd (dispatch ?w ?a) = Inr (Some (Finite False 80))"
    by (simp add: dispatch_def truthy_def default_filters_def calculate_from_json_def
        get_default_def json_step_def matches_filters_def finish_def ex_80_of_100_percentage Let_def)
  have p: "?P ?argv = Parsed ?a" by simp
  have "\<forall>coverage. snd (dispatch ?w ?a) = Inr (Some coverage) \<longrightarrow>
         exit_status (main ?P ?w ?argv) = 0 \<and> stdout (main ?P ?w ?argv) = [format_1f coverage]"
    by (rule exit_status_and_standard_output [of ?P ?argv ?a ?w, THEN conjunct1, THEN mp,
          THEN conjunct1, OF p])
  then have "snd (dispatch ?w ?a) = Inr (Some (Finite False 80)) \<longrightarrow>
         exit_status (main ?P ?w ?argv) = 0
         \<and> stdout (main ?P ?w ?argv) = [format_1f (Finite False 80)]"
    by (rule spec)
  from this d have "exit_status (main ?P ?w ?argv) = 0
      \<and> stdout (main ?P ?w ?argv) = [format_1f (Finite False 80)]"
    by (rule mp)
  then show ?thesis by (simp only: format_1f_80)
qed

text \<open>
  C8, as stated, fails: the parser requires one of \<open>--json\<close> and \<open>--gcov-dir\<close>, and for a
  command line without them (here the empty one) \<open>argparse\<close> reports a usage error and ends
  the process with status 2, not 1.
\<close>

theorem usage_error_exit_status_counterexample:
  "exit_status
     (main (\<lambda>argv. if argv = []
                   then ParserExit 2 []
                     [ArgparseMessage ''one of the arguments --json --gcov-dir is required'']
                   else Parsed \<lparr>args_json = Some ''coverage_summary.json'',
                                args_gcov_dir = None, args_filters = None\<rparr>)
        \<lparr>load_json = (\<lambda>p. FileNotFound []), rglob_gcda = (\<lambda>d. []),
          run_gcov = (\<lambda>g. FileNotFoundError), int_max_str_digits = 4300\<rparr>
        []) = 2
   \<and> (2::int) \<noteq> 1"
  by (simp add: main_def)

section \<open>Properties of reading the summary\<close>

lemma json_failure:
  "load p = FileNotFound e \<or> load p = JSONDecodeError e \<Longrightarrow>
   calculate_from_json load p filters = ([ErrorReadingCoverageFile e], Inr None)"
  by (auto simp add: calculate_from_json_def)

lemma main_json_failure:
  assumes l: "load_json w p = FileNotFound e \<or> load_json w p = JSONDecodeError e"
    and a: "parse_args argv = Parsed args" "args_json args = Some p" "p \<noteq> []"
  shows "main parse_args w argv
    = \<lparr>stdout = [], stderr = [ErrorReadingCoverageFile e], exit_status = 1\<rparr>"
proof -
  have "dispatch w args = ([ErrorReadingCoverageFile e], Inr None)"
    using a(2,3) json_failure [of "load_json w" p e, OF l]
    by (simp add: dispatch_def truthy_def Let_def)
  then show ?thesis
    by (simp add: main_Parsed [of parse_args argv args, OF a(1)])
qed

text \<open>
  C6, as amended: If \<open>open\<close> raises \<open>FileNotFoundError\<close> or \<open>json.load\<close> raises
  \<open>json.JSONDecodeError\<close>, the JSON extractor prints one diagnostic and returns \<open>None\<close>: no
  exception leaves it and no aggregate is computed. A process started with that path then
  ends with exit status 1, nothing on standard output and that diagnostic alone on
  standard error.
\<close>

theorem json_read_failure_returns_none:
  "(load p = FileNotFound e \<or> load p = JSONDecodeError e \<longrightarrow>
      calculate_from_json load p filters = ([ErrorReadingCoverageFile e], Inr None))
   \<and> (load_json w p = FileNotFound e \<or> load_json w p = JSONDecodeError e \<longrightarrow>
        parse_args argv = Parsed args \<longrightarrow> args_json args = Some p \<longrightarrow> p \<noteq> [] \<longrightarrow>
        main parse_args w argv
          = \<lparr>stdout = [], stderr = [ErrorReadingCoverageFile e], exit_status = 1\<rparr>)"
proof (intro conjI impI)
  assume "load p = FileNotFound e \<or> load p = JSONDecodeError e"
  then show "calculate_from_json load p filters = ([ErrorReadingCoverageFile e], Inr None)"
    by (rule json_failure [of load p e])
next
  assume "load_json w p = FileNotFound e \<or> load_json w p = JSONDecodeError e"
    "parse_args argv = Parsed args" "args_json args = Some p" "p \<noteq> []"
  then show "main parse_args w argv
          = \<lparr>stdout = [], stderr = [ErrorReadingCoverageFile e], exit_status = 1\<rparr>"
    by (rule main_json_failure [of w p e parse_args argv args])
qed

theorem json_read_failure_returns_none_witness:
  "main (\<lambda>argv. Parsed \<lparr>args_json = Some ''missing.json'', args_gcov_dir = None,
                          args_filters = None\<rparr>)
     \<lparr>load_json = (\<lambda>path. if path = ''missing.json'' then FileNotFound ''No such file''
                           else JSONDecodeError ''Expecting value''),
       rglob_gcda = (\<lambda>d. []), run_gcov = (\<lambda>g. FileNotFoundError), int_max_str_digits = 4300\<rparr>
     [''--json'', ''missing.json'']
   = \<lparr>stdout = [], stderr = [ErrorReadingCoverageFile ''No such file''], exit_status = 1\<rparr>"
proof -
  let ?a = "\<lparr>args_json = Some ''missing.json'', args_gcov_dir = None, args_filters = None\<rparr>"
  let ?P = "\<lambda>argv :: string list. Parsed ?a"
  let ?w = "\<lparr>load_json = (\<lambda>path. if path = ''missing.json'' then FileNotFound ''No such file''
                           else JSONDecodeError ''Expecting value''),
       rglob_gcda = (\<lambda>d. []), run_gcov = (\<lambda>g. FileNotFoundError), int_max_str_digits = 4300\<rparr>"
  have l: "load_json ?w ''missing.json'' = FileNotFound ''No such file''
      \<or> load_json ?w ''missing.json'' = JSONDecodeError ''No such file''"
    by simp
  have p: "?P [''--json'', ''missing.json''] = Parsed ?a" by simp
  have j: "args_json ?a = Some ''missing.json''" by simp
  have n: "''missing.json'' \<noteq> []" by simp
  show ?thesis
    by (rule json_read_failure_returns_none
        [of _ "''missing.json''" "''No such file''" _ ?w ?P "[''--json'', ''missing.json'']" ?a,
          THEN conjunct2, THEN mp, THEN mp, THEN mp, THEN mp, OF l p j n])
qed

text \<open>
  C6, as stated, fails: the \<open>except\<close> clause names two exception classes only. A summary
  file whose bytes are not valid UTF-8 is not well-formed, \<open>json.load\<close> raises
  \<open>UnicodeDecodeError\<close> on it, and the exception leaves the extractor and \<open>main\<close>: no
  diagnostic of the extractor, a traceback instead.
\<close>

theorem undecodable_document_counterexample:
  "calculate_from_json (\<lambda>p. LoadRaised UnicodeDecodeError) ''coverage_summary.json'' [''src/'']
     = ([], Inl UnicodeDecodeError)
   \<and> main (\<lambda>argv. Parsed \<lparr>args_json = Some ''coverage_summary.json'', args_gcov_dir = None,
                            args_filters = None\<rparr>)
       \<lparr>load_json = (\<lambda>p. LoadRaised UnicodeDecodeError), rglob_gcda = (\<lambda>d. []),
         run_gcov = (\<lambda>g. FileNotFoundError), int_max_str_digits = 4300\<rparr>
       [''--json'', ''coverage_summary.json'']
     = \<lparr>stdout = [], stderr = [Traceback UnicodeDecodeError], exit_status = 1\<rparr>"
  by (simp add: calculate_from_json_def main_def dispatch_def truthy_def Let_def)

section \<open>Properties of the JSON aggregate\<close>

lemma round_nearest_abs_error:
  assumes "0 \<le> x" "x \<le> 2 powi k" "- 1021 \<le> k"
  shows "\<bar>round_nearest x - x\<bar> \<le> 2 powi (k - 54)"
proof (cases "x = 0 \<or> x = 2 powi k")
  case True
  then show ?thesis
  proof
    assume "x = 0"
    then show ?thesis by (simp add: round_nearest_def less_imp_le)
  next
    assume x: "x = 2 powi k"
    have "round_nearest (2 powi k) = 2 powi k"
      using assms(3) by (intro round_nearest_two_powi) simp
    then show ?thesis by (simp add: x less_imp_le)
  qed
next
  case False
  then have xpos: "0 < x" and xlt: "x < 2 powi k" using assms(1,2) by simp_all
  have "ilog2 x < k"
  proof (rule ccontr)
    assume "\<not> ilog2 x < k"
    then have "(2::rat) powi k \<le> 2 powi (ilog2 x)" by (intro two_powi_mono) simp
    with ilog2_bounds(1) [OF xpos] xlt show False by simp
  qed
  then have "max (ilog2 x) (- 1022) - 52 \<le> k - 53" using assms(3) by simp
  then have "quantum x \<le> 2 powi (k - 53)"
    unfolding quantum_def by (rule two_powi_mono)
  then have "quantum x / 2 \<le> 2 powi (k - 53) / 2" by simp
  also have "(2::rat) powi (k - 53) / 2 = 2 powi (k - 53) / 2 powi 1" by simp
  also have "\<dots> = 2 powi (k - 54)" by (rule two_powi_diff_eq) simp
  finally show ?thesis using round_nearest_error [of x] by simp
qed

lemma percentage_error:
  assumes c: "0 \<le> c" "c \<le> t" and t: "0 < t"
  shows "\<exists>v. percentage c t = Inr (Finite False v)
    \<and> \<bar>v - 100 * of_int c / of_int t\<bar> \<le> 1 / 2 ^ 46"
proof -
  define x :: rat where "x = of_int c / of_int t"
  have tpos: "(0::rat) < of_int t" using t by simp
  have x0: "0 \<le> x" using c(1) tpos by (simp add: x_def)
  have "(of_int c :: rat) \<le> of_int t" using c(2) by (simp only: of_int_le_iff)
  then have x1: "x \<le> 1" using tpos by (simp add: x_def)
  then have "x \<le> of_int 1" by simp
  from round_magnitude_le [OF x0 this]
  obtain r1 where r1: "round_magnitude x = Some r1" "0 \<le> r1" "r1 \<le> 1" by auto
  have r1eq: "r1 = round_nearest x" using r1(1) by (rule round_magnitude_eq_Some)
  have "\<bar>round_nearest x - x\<bar> \<le> 2 powi (0 - 54)"
    using x0 x1 by (intro round_nearest_abs_error) simp_all
  then have e1: "\<bar>r1 - x\<bar> \<le> 1 / 2 ^ 54" by (simp add: r1eq power_int_minus field_simps)
  have "\<bar>(of_int c :: rat)\<bar> / \<bar>of_int t\<bar> = x" using c(1) t by (simp add: x_def)
  then have q: "int_truediv c t = Inr (Finite False r1)"
    using c(1) t r1(1) by (simp add: int_truediv_def)
  have y0: "0 \<le> r1 * 100" using r1(2) by simp
  have y1: "r1 * 100 \<le> of_int 100" using r1(3) by simp
  from round_magnitude_le [OF y0 y1]
  obtain r2 where r2: "round_magnitude (r1 * 100) = Some r2" by auto
  have r2eq: "r2 = round_nearest (r1 * 100)" using r2 by (rule round_magnitude_eq_Some)
  have "r1 * 100 \<le> 2 powi 7" using r1(3) by simp
  with y0 have "\<bar>round_nearest (r1 * 100) - r1 * 100\<bar> \<le> 2 powi (7 - 54)"
    by (intro round_nearest_abs_error) simp_all
  then have e2: "\<bar>r2 - r1 * 100\<bar> \<le> 1 / 2 ^ 47" by (simp add: r2eq power_int_minus field_simps)
  have p: "percentage c t = Inr (Finite False r2)"
    by (simp add: percentage_def q float_mul_int_def float_of_int_100 r2)
  have "100 * of_int c / of_int t = 100 * x" by (simp add: x_def)
  moreover have "\<bar>r2 - 100 * x\<bar> \<le> 1 / 2 ^ 46"
  proof -
    have "r2 - 100 * x = (r2 - r1 * 100) + 100 * (r1 - x)" by (simp add: algebra_simps)
    then have "\<bar>r2 - 100 * x\<bar> \<le> \<bar>r2 - r1 * 100\<bar> + \<bar>100 * (r1 - x)\<bar>"
      by (simp only: abs_triangle_ineq)
    moreover have "\<bar>100 * (r1 - x)\<bar> = 100 * \<bar>r1 - x\<bar>"
      by (simp only: abs_mult)
    ultimately have "\<bar>r2 - 100 * x\<bar> \<le> \<bar>r2 - r1 * 100\<bar> + 100 * \<bar>r1 - x\<bar>"
      by simp
    also have "\<bar>r2 - r1 * 100\<bar> + 100 * \<bar>r1 - x\<bar> \<le> 1 / 2 ^ 47 + 100 * (1 / 2 ^ 54)"
      using e1 e2 by (intro add_mono mult_left_mono) simp_all
    also have "\<dots> \<le> 1 / 2 ^ 46" by simp
    finally show ?thesis .
  qed
  ultimately show ?thesis using p by simp
qed

lemma foldl_json_step_matching:
  assumes "\<forall>e \<in> set entries. matches_filters filters (get_default (filename e) [])
      \<and> 0 < get_default (line_total e) 0"
  shows "foldl (json_step filters) (t, c, m) entries =
     (t + sum_list (map (\<lambda>e. get_default (line_total e) 0) entries),
      c + sum_list (map (\<lambda>e. get_default (line_covered e) 0) entries),
      m @ map (\<lambda>e. get_default (filename e) []) entries)"
  using assms
  by (induction entries arbitrary: t c m) (simp_all add: json_step_def Let_def)

lemma sum_list_line_total_pos:
  assumes "\<forall>e \<in> set entries. 0 < get_default (line_total e) 0" "entries \<noteq> []"
  shows "0 < sum_list (map (\<lambda>e. get_default (line_total e) (0::int)) entries)"
  using assms
proof (induction entries)
  case Nil
  then show ?case by simp
next
  case (Cons e rest)
  have "0 \<le> sum_list (map (\<lambda>e. get_default (line_total e) (0::int)) rest)"
    using Cons.prems(1) by (intro sum_list_nonneg) (auto intro: less_imp_le)
  with Cons.prems(1) show ?case by simp
qed

text \<open>
  C1, as amended: For a JSON document with at least one record, in which every record's
  filename matches the filter set and every record has a positive \<open>line_total\<close>, the sum of
  the \<open>line_total\<close> is positive and the extractor returns the float value of
  \<open>(covered_lines / total_lines) * 100\<close> for the sums over all records, after printing the
  summary of all records, or lets the exception of that computation pass. When the sum of
  the \<open>line_covered\<close> is between 0 and the sum of the \<open>line_total\<close>, the computation raises
  nothing and its value differs from the exact \<open>100 * covered_lines / total_lines\<close> by at
  most \<open>2^-46\<close>.
\<close>

theorem json_aggregate_over_all_records:
  assumes "load p = Loaded data"
    and "\<forall>e \<in> set (get_default (files data) []).
           matches_filters filters (get_default (filename e) [])
           \<and> 0 < get_default (line_total e) 0"
    and "get_default (files data) [] \<noteq> []"
  shows "let entries = get_default (files data) [];
             total_lines = sum_list (map (\<lambda>e. get_default (line_total e) 0) entries);
             covered_lines = sum_list (map (\<lambda>e. get_default (line_covered e) 0) entries)
         in 0 < total_lines
            \<and> calculate_from_json load p filters =
                (case percentage covered_lines total_lines of
                   Inl e \<Rightarrow> ([], Inl e)
                 | Inr coverage_pct \<Rightarrow>
                     ([MatchedSummary (length entries) covered_lines total_lines],
                      Inr (Some coverage_pct)))
            \<and> (0 \<le> covered_lines \<and> covered_lines \<le> total_lines \<longrightarrow>
                 (\<exists>v. percentage covered_lines total_lines = Inr (Finite False v)
                      \<and> \<bar>v - 100 * of_int covered_lines / of_int total_lines\<bar> \<le> 1 / 2 ^ 46))"
proof -
  define entries where "entries = get_default (files data) []"
  define total_lines where
    "total_lines = sum_list (map (\<lambda>e. get_default (line_total e) 0) entries)"
  define covered_lines where
    "covered_lines = sum_list (map (\<lambda>e. get_default (line_covered e) 0) entries)"
  have all: "\<forall>e \<in> set entries. matches_filters filters (get_default (filename e) [])
      \<and> 0 < get_default (line_total e) 0"
    using assms(2) by (simp add: entries_def)
  have ne: "entries \<noteq> []" using assms(3) by (simp add: entries_def)
  have pos: "0 < total_lines"
    unfolding total_lines_def using all ne by (intro sum_list_line_total_pos) simp_all
  have fold: "foldl (json_step filters) (0, 0, []) entries =
      (total_lines, covered_lines, map (\<lambda>e. get_default (filename e) []) entries)"
    using foldl_json_step_matching [OF all, of 0 0 "[]"]
    by (simp add: total_lines_def covered_lines_def)
  have res: "calculate_from_json load p filters =
      (case percentage covered_lines total_lines of
         Inl e \<Rightarrow> ([], Inl e)
       | Inr coverage_pct \<Rightarrow>
           ([MatchedSummary (length entries) covered_lines total_lines], Inr (Some coverage_pct)))"
    using pos
    by (simp add: calculate_from_json_def assms(1) entries_def [symmetric] fold finish_def
        split: sum.splits)
  have err: "0 \<le> covered_lines \<and> covered_lines \<le> total_lines \<longrightarrow>
      (\<exists>v. percentage covered_lines total_lines = Inr (Finite False v)
           \<and> \<bar>v - 100 * of_int covered_lines / of_int total_lines\<bar> \<le> 1 / 2 ^ 46)"
  proof (rule impI)
    assume "0 \<le> covered_lines \<and> covered_lines \<le> total_lines"
    then have "0 \<le> covered_lines" "covered_lines \<le> total_lines" by simp_all
    then show "\<exists>v. percentage covered_lines total_lines = Inr (Finite False v)
           \<and> \<bar>v - 100 * of_int covered_lines / of_int total_lines\<bar> \<le> 1 / 2 ^ 46"
      using pos by (rule percentage_error)
  qed
  show ?thesis
    using pos res err
    by (simp only: Let_def entries_def [symmetric] total_lines_def [symmetric]
        covered_lines_def [symmetric] simp_thms)
qed

theorem json_aggregate_over_all_records_witness:
  "calculate_from_json
     (\<lambda>p. Loaded \<lparr>files = Some
        [\<lparr>filename = Some ''src/a.c'', line_total = Some 100, line_covered = Some 80\<rparr>,
         \<lparr>filename = Some ''src/b.c'', line_total = Some 50, line_covered = Some 10\<rparr>]\<rparr>)
     ''coverage_summary.json'' [''src/'']
   = ([MatchedSummary 2 90 150], Inr (Some (Finite False 60)))"
proof -
  let ?data = "\<lparr>files = Some
        [\<lparr>filename = Some ''src/a.c'', line_total = Some 100, line_covered = Some 80\<rparr>,
         \<lparr>filename = Some ''src/b.c'', line_total = Some 50, line_covered = Some 10\<rparr>]\<rparr>"
  let ?load = "\<lambda>p :: string. Loaded ?data"
  have l: "?load ''coverage_summary.json'' = Loaded ?data" by simp
  have m: "\<forall>e \<in> set (get_default (files ?data) []).
           matches_filters [''src/''] (get_default (filename e) [])
           \<and> 0 < get_default (line_total e) 0"
    by (simp add: get_default_def matches_filters_def)
  have n: "get_default (files ?data) [] \<noteq> []" by (simp add: get_default_def)
  show ?thesis
    using json_aggregate_over_all_records [of ?load "''coverage_summary.json''" ?data "[''src/'']",
        OF l m n]
    by (simp add: Let_def get_default_def ex_90_of_150_percentage)
qed

text \<open>
  C1, as stated, fails: equality with the exact quotient does not hold. For the single
  record \<open>src/a.c\<close> with 7 of 25 lines covered the extractor returns
  \<open>28.000000000000004\<close> (that is \<open>28 + 2^-48\<close>), not 28: \<open>7 / 25\<close> is rounded before it is
  multiplied by 100.
\<close>

theorem json_percentage_rounding_counterexample:
  "calculate_from_json
     (\<lambda>p. Loaded \<lparr>files = Some
        [\<lparr>filename = Some ''src/a.c'', line_total = Some 25, line_covered = Some 7\<rparr>]\<rparr>)
     ''coverage_summary.json'' [''src/'']
   = ([MatchedSummary 1 7 25], Inr (Some (Finite False (7881299347898369 / 281474976710656))))
   \<and> (7881299347898369 / 281474976710656 :: rat) \<noteq> 100 * 7 / 25"
  by (simp add: calculate_from_json_def get_default_def json_step_def matches_filters_def
      finish_def ex_7_of_25_percentage Let_def)

end
